theory Spec2Isabelle
  imports Main "HOL-Library.Product_Lexorder"
begin

section \<open>Python strings\<close>

text \<open>
  Texts are lists of 8-bit characters.  The character classes and case mappings are the
  ones Python's \<^verbatim>\<open>str\<close> methods and the \<^verbatim>\<open>re\<close> module assign to the ASCII code points;
  code points from 128 on are treated as caseless symbols that are neither white space
  nor word characters.
\<close>

definition newline :: char where
  "newline = CHR 0x0A"

definition space_chars :: string where
  \<comment> \<open>\<^verbatim>\<open>str.isspace\<close>, also the \<^verbatim>\<open>\s\<close> of a \<^verbatim>\<open>str\<close> pattern\<close>
  "space_chars = [CHR 0x20, CHR 0x09, CHR 0x0A, CHR 0x0B, CHR 0x0C, CHR 0x0D,
                  CHR 0x1C, CHR 0x1D, CHR 0x1E, CHR 0x1F]"

definition line_breaks :: string where
  \<comment> \<open>the line boundaries of \<^verbatim>\<open>str.splitlines\<close> (a CR LF pair counts once)\<close>
  "line_breaks = [CHR 0x0A, CHR 0x0B, CHR 0x0C, CHR 0x0D, CHR 0x1C, CHR 0x1D, CHR 0x1E]"

definition upper_chars :: string where
  "upper_chars = ''ABCDEFGHIJKLMNOPQRSTUVWXYZ''"

definition lower_chars :: string where
  "lower_chars = ''abcdefghijklmnopqrstuvwxyz''"

definition digit_chars :: string where
  "digit_chars = ''0123456789''"

definition is_space :: "char \<Rightarrow> bool" where
  "is_space c = (c \<in> set space_chars)"

definition is_digit :: "char \<Rightarrow> bool" where
  "is_digit c = (c \<in> set digit_chars)"

definition is_word :: "char \<Rightarrow> bool" where
  \<comment> \<open>\<^verbatim>\<open>\w\<close>\<close>
  "is_word c = (c \<in> set upper_chars \<or> c \<in> set lower_chars \<or> c \<in> set digit_chars \<or> c = CHR ''_'')"

definition lower_char :: "char \<Rightarrow> char" where
  "lower_char c = (case map_of (zip upper_chars lower_chars) c of Some d \<Rightarrow> d | None \<Rightarrow> c)"

definition upper_char :: "char \<Rightarrow> char" where
  "upper_char c = (case map_of (zip lower_chars upper_chars) c of Some d \<Rightarrow> d | None \<Rightarrow> c)"

definition lower :: "string \<Rightarrow> string" where
  "lower s = map lower_char s"

definition upper :: "string \<Rightarrow> string" where
  "upper s = map upper_char s"

definition isupper :: "string \<Rightarrow> bool" where
  \<comment> \<open>at least one cased character, and no lowercase one\<close>
  "isupper s = (list_ex (\<lambda>c. c \<in> set upper_chars) s \<and> list_all (\<lambda>c. c \<notin> set lower_chars) s)"

definition strip_chars :: "string \<Rightarrow> string \<Rightarrow> string" where
  \<comment> \<open>\<^verbatim>\<open>s.strip(chars)\<close>\<close>
  "strip_chars cs s = rev (dropWhile (\<lambda>c. c \<in> set cs) (rev (dropWhile (\<lambda>c. c \<in> set cs) s)))"

definition rstrip_chars :: "string \<Rightarrow> string \<Rightarrow> string" where
  \<comment> \<open>\<^verbatim>\<open>s.rstrip(chars)\<close>\<close>
  "rstrip_chars cs s = rev (dropWhile (\<lambda>c. c \<in> set cs) (rev s))"

definition strip :: "string \<Rightarrow> string" where
  \<comment> \<open>\<^verbatim>\<open>s.strip()\<close>\<close>
  "strip s = strip_chars space_chars s"

fun fields :: "string \<Rightarrow> string \<Rightarrow> string list" where
  "fields cur [] = (if cur = [] then [] else [cur])"
| "fields cur (c # cs) =
     (if is_space c then (if cur = [] then fields [] cs else cur # fields [] cs)
      else fields (cur @ [c]) cs)"

definition split_ws :: "string \<Rightarrow> string list" where
  \<comment> \<open>\<^verbatim>\<open>s.split()\<close>: the maximal runs of non-space characters\<close>
  "split_ws s = fields [] s"

fun lines_from :: "string \<Rightarrow> string \<Rightarrow> string list" where
  "lines_from cur [] = (if cur = [] then [] else [cur])"
| "lines_from cur [c] = (if c \<in> set line_breaks then [cur] else [cur @ [c]])"
| "lines_from cur (c # d # cs) =
     (if c = CHR 0x0D \<and> d = CHR 0x0A then cur # lines_from [] cs
      else if c \<in> set line_breaks then cur # lines_from [] (d # cs)
      else lines_from (cur @ [c]) (d # cs))"

definition splitlines :: "string \<Rightarrow> string list" where
  \<comment> \<open>\<^verbatim>\<open>s.splitlines()\<close>\<close>
  "splitlines s = lines_from [] s"

fun join :: "string \<Rightarrow> string list \<Rightarrow> string" where
  \<comment> \<open>\<^verbatim>\<open>sep.join(xs)\<close>\<close>
  "join sep [] = []"
| "join sep [x] = x"
| "join sep (x # y # ys) = x @ sep @ join sep (y # ys)"

fun startswith :: "string \<Rightarrow> string \<Rightarrow> bool" where
  \<comment> \<open>\<^verbatim>\<open>s.startswith(p)\<close>, written \<open>startswith p s\<close>\<close>
  "startswith [] s = True"
| "startswith (p # ps) [] = False"
| "startswith (p # ps) (c # cs) = (p = c \<and> startswith ps cs)"

fun contains :: "string \<Rightarrow> string \<Rightarrow> bool" where
  \<comment> \<open>\<^verbatim>\<open>p in s\<close>, written \<open>contains p s\<close>\<close>
  "contains p [] = (p = [])"
| "contains p (c # cs) = (startswith p (c # cs) \<or> contains p cs)"

section \<open>Regular expressions\<close>

text \<open>
  The patterns of the source are written as terms of \<open>regex\<close>, and matched the way
  Python's backtracking matcher does: \<open>rmatch\<close> lists the ways a pattern can match at a
  position, in the order in which the matcher tries them, so the head of the list is the
  match Python reports.  A matcher state is the character before the position (for
  \<^verbatim>\<open>\b\<close> and \<^verbatim>\<open>^\<close>), the text from the position on, and the groups captured so far.
\<close>

datatype citem =
    CC char            \<comment> \<open>a single character\<close>
  | CR char char       \<comment> \<open>a range \<^verbatim>\<open>a-z\<close>\<close>
  | CSpace             \<comment> \<open>\<^verbatim>\<open>\s\<close>\<close>
  | CDigit             \<comment> \<open>\<^verbatim>\<open>\d\<close>\<close>
  | CWord              \<comment> \<open>\<^verbatim>\<open>\w\<close>\<close>

datatype regex =
    Eps
  | Chr char                          \<comment> \<open>a literal character\<close>
  | Dot                               \<comment> \<open>\<^verbatim>\<open>.\<close>\<close>
  | Cls "citem list"                  \<comment> \<open>\<^verbatim>\<open>[...]\<close>\<close>
  | NCls "citem list"                 \<comment> \<open>\<^verbatim>\<open>[^...]\<close>\<close>
  | Seq regex regex
  | Alt regex regex                   \<comment> \<open>\<^verbatim>\<open>a|b\<close>\<close>
  | Rep regex nat "nat option" bool   \<comment> \<open>\<^verbatim>\<open>r{m,n}\<close>; the flag is True for greedy\<close>
  | Grp nat regex                     \<comment> \<open>capture group number \<open>n\<close>\<close>
  | Bol                               \<comment> \<open>\<^verbatim>\<open>^\<close>\<close>
  | Eol                               \<comment> \<open>\<^verbatim>\<open>$\<close>\<close>
  | Wordb                             \<comment> \<open>\<^verbatim>\<open>\b\<close>\<close>
  | Look regex                        \<comment> \<open>\<^verbatim>\<open>(?=r)\<close>\<close>

record flags =
  icase :: bool     \<comment> \<open>\<^verbatim>\<open>re.I\<close>\<close>
  mline :: bool     \<comment> \<open>\<^verbatim>\<open>re.M\<close>\<close>
  dotall :: bool    \<comment> \<open>\<^verbatim>\<open>re.S\<close>\<close>

definition f0 :: flags where
  "f0 = \<lparr>icase = False, mline = False, dotall = False\<rparr>"

definition fI :: flags where
  "fI = \<lparr>icase = True, mline = False, dotall = False\<rparr>"

definition fM :: flags where
  "fM = \<lparr>icase = False, mline = True, dotall = False\<rparr>"

definition fIM :: flags where
  "fIM = \<lparr>icase = True, mline = True, dotall = False\<rparr>"

definition fIS :: flags where
  "fIS = \<lparr>icase = True, mline = False, dotall = True\<rparr>"

type_synonym caps = "(nat \<times> string) list"
type_synonym mstate = "char option \<times> string \<times> caps"

fun char_le :: "char \<Rightarrow> char \<Rightarrow> bool" where
  "char_le a b = ((of_char a :: nat) \<le> of_char b)"

fun in_item :: "citem \<Rightarrow> char \<Rightarrow> bool" where
  "in_item (CC c) x = (x = c)"
| "in_item (CR a b) x = (char_le a x \<and> char_le x b)"
| "in_item CSpace x = is_space x"
| "in_item CDigit x = is_digit x"
| "in_item CWord x = is_word x"

definition in_class :: "flags \<Rightarrow> citem list \<Rightarrow> char \<Rightarrow> bool" where
  \<comment> \<open>under \<^verbatim>\<open>re.I\<close> a character is in a class when one of its case variants is\<close>
  "in_class fl items x =
     (list_ex (\<lambda>it. in_item it x) items \<or>
      (icase fl \<and> list_ex (\<lambda>it. in_item it (lower_char x) \<or> in_item it (upper_char x)) items))"

definition chr_eq :: "flags \<Rightarrow> char \<Rightarrow> char \<Rightarrow> bool" where
  "chr_eq fl c x = (if icase fl then lower_char x = lower_char c else x = c)"

fun step1 :: "(char \<Rightarrow> bool) \<Rightarrow> mstate \<Rightarrow> mstate list" where
  \<comment> \<open>consume one character that satisfies \<open>P\<close>\<close>
  "step1 P (prev, [], cs) = []"
| "step1 P (prev, x # xs, cs) = (if P x then [(Some x, xs, cs)] else [])"

fun rep_match :: "(mstate \<Rightarrow> mstate list) \<Rightarrow> bool \<Rightarrow> nat \<Rightarrow> nat \<Rightarrow> nat option \<Rightarrow>
    mstate \<Rightarrow> mstate list" where
  \<comment> \<open>\<open>rep_match step greedy fuel m n\<close>: between \<open>m\<close> and \<open>n\<close> rounds of \<open>step\<close>; once the
      \<open>m\<close> required rounds are done a round has to consume input, so \<open>fuel\<close> larger than
      \<open>m\<close> plus the length of the text is never used up\<close>
  "rep_match step g 0 m n st = (if m = 0 then [st] else [])"
| "rep_match step g (Suc k) m n st =
     (if n = Some 0 then (if m = 0 then [st] else [])
      else
        let nexts = filter (\<lambda>st'. 0 < m \<or> length (fst (snd st')) < length (fst (snd st))) (step st);
            more = concat (map (rep_match step g k (m - 1) (map_option (\<lambda>j. j - 1) n)) nexts)
        in if 0 < m then more else if g then more @ [st] else st # more)"

primrec rmatch :: "regex \<Rightarrow> flags \<Rightarrow> mstate \<Rightarrow> mstate list" where
  "rmatch Eps fl st = [st]"
| "rmatch (Chr c) fl st = step1 (chr_eq fl c) st"
| "rmatch Dot fl st = step1 (\<lambda>x. dotall fl \<or> x \<noteq> newline) st"
| "rmatch (Cls items) fl st = step1 (in_class fl items) st"
| "rmatch (NCls items) fl st = step1 (\<lambda>x. \<not> in_class fl items x) st"
| "rmatch (Seq a b) fl st = concat (map (rmatch b fl) (rmatch a fl st))"
| "rmatch (Alt a b) fl st = rmatch a fl st @ rmatch b fl st"
| "rmatch (Rep r m n g) fl st =
     rep_match (rmatch r fl) g (Suc (m + length (fst (snd st)))) m n st"
| "rmatch (Grp k r) fl st =
     map (\<lambda>(p, rest, cs). (p, rest, (k, take (length (fst (snd st)) - length rest) (fst (snd st))) # cs))
       (rmatch r fl st)"
| "rmatch Bol fl st =
     (if fst st = None \<or> (mline fl \<and> fst st = Some newline) then [st] else [])"
| "rmatch Eol fl st =
     (if fst (snd st) = [] \<or> fst (snd st) = [newline] \<or>
         (mline fl \<and> startswith [newline] (fst (snd st))) then [st] else [])"
| "rmatch Wordb fl st =
     (if (case fst st of None \<Rightarrow> False | Some p \<Rightarrow> is_word p) \<noteq>
         (case fst (snd st) of [] \<Rightarrow> False | x # _ \<Rightarrow> is_word x) then [st] else [])"
| "rmatch (Look r) fl st = (if rmatch r fl st = [] then [] else [st])"

text \<open>Pattern shorthands.\<close>

definition Str :: "string \<Rightarrow> regex" where
  "Str s = foldr (\<lambda>c r. Seq (Chr c) r) s Eps"

definition Star :: "regex \<Rightarrow> regex" where
  "Star r = Rep r 0 None True"

definition Plus :: "regex \<Rightarrow> regex" where
  "Plus r = Rep r 1 None True"

definition Opt :: "regex \<Rightarrow> regex" where
  "Opt r = Rep r 0 (Some 1) True"

definition LazyStar :: "regex \<Rightarrow> regex" where
  "LazyStar r = Rep r 0 None False"

definition LazyPlus :: "regex \<Rightarrow> regex" where
  "LazyPlus r = Rep r 1 None False"

definition Seqs :: "regex list \<Rightarrow> regex" where
  "Seqs rs = foldr Seq rs Eps"

definition Alts :: "regex list \<Rightarrow> regex" where
  \<comment> \<open>\<^verbatim>\<open>a|b|c\<close> of a non-empty list\<close>
  "Alts rs = foldr Alt (butlast rs) (last rs)"

definition Sp :: regex where
  "Sp = Cls [CSpace]"

definition Dg :: regex where
  "Dg = Cls [CDigit]"

text \<open>
  \<open>re_match\<close> is \<^verbatim>\<open>re.match\<close>: the first way the pattern matches at the start of the
  text.  The result is the matched text, the text after it and the groups.
\<close>

definition matched :: "string \<Rightarrow> string \<Rightarrow> string" where
  "matched s rest = take (length s - length rest) s"

definition re_match :: "flags \<Rightarrow> regex \<Rightarrow> string \<Rightarrow> (string \<times> string \<times> caps) option" where
  "re_match fl r s =
     (case rmatch r fl (None, s, []) of
        [] \<Rightarrow> None
      | (p, rest, cs) # _ \<Rightarrow> Some (matched s rest, rest, cs))"

text \<open>
  \<open>re_search\<close> is \<^verbatim>\<open>re.search\<close>: the leftmost position with a match, and the first match
  there.  The result is the text before the match, the matched text, the text after it
  and the groups.
\<close>

fun search_from :: "flags \<Rightarrow> regex \<Rightarrow> char option \<Rightarrow> string \<Rightarrow> string \<Rightarrow>
    (string \<times> string \<times> string \<times> caps) option" where
  "search_from fl r prev gap [] =
     (case rmatch r fl (prev, [], []) of
        [] \<Rightarrow> None
      | (p, rest, cs) # _ \<Rightarrow> Some (gap, [], rest, cs))"
| "search_from fl r prev gap (x # xs) =
     (case rmatch r fl (prev, x # xs, []) of
        [] \<Rightarrow> search_from fl r (Some x) (gap @ [x]) xs
      | (p, rest, cs) # _ \<Rightarrow> Some (gap, matched (x # xs) rest, rest, cs))"

definition re_search :: "flags \<Rightarrow> regex \<Rightarrow> string \<Rightarrow> (string \<times> string \<times> string \<times> caps) option" where
  "re_search fl r s = search_from fl r None [] s"

definition re_found :: "flags \<Rightarrow> regex \<Rightarrow> string \<Rightarrow> bool" where
  \<comment> \<open>the truth value of \<^verbatim>\<open>re.search(r, s)\<close>\<close>
  "re_found fl r s = (re_search fl r s \<noteq> None)"

definition group :: "caps \<Rightarrow> nat \<Rightarrow> string option" where
  \<comment> \<open>\<^verbatim>\<open>m.group(k)\<close>: the last capture of group \<open>k\<close>, None when it took no part\<close>
  "group cs k = map_of cs k"

text \<open>
  \<open>scan\<close> lists the successive non-overlapping matches of \<^verbatim>\<open>re.finditer\<close>: each
  entry is the text skipped before a match together with the matched text and its
  groups, and the last entry is the text left after the last match.  After an empty
  match the next match may not be empty at the same position.
\<close>

definition first_match :: "flags \<Rightarrow> regex \<Rightarrow> char option \<Rightarrow> string \<Rightarrow> bool \<Rightarrow> mstate option" where
  "first_match fl r prev s adv =
     (case filter (\<lambda>(p, rest, cs). length rest \<le> length s \<and> (adv \<longrightarrow> length rest < length s))
             (rmatch r fl (prev, s, [])) of
        [] \<Rightarrow> None
      | m # _ \<Rightarrow> Some m)"

function scan :: "flags \<Rightarrow> regex \<Rightarrow> char option \<Rightarrow> string \<Rightarrow> bool \<Rightarrow> string \<Rightarrow>
    (string \<times> (string \<times> caps) option) list" where
  "scan fl r prev s adv gap =
     (case first_match fl r prev s adv of
        Some (p, rest, cs) \<Rightarrow>
          (gap, Some (matched s rest, cs)) # scan fl r p rest (length rest = length s) []
      | None \<Rightarrow>
          (case s of
             [] \<Rightarrow> [(gap, None)]
           | x # xs \<Rightarrow> scan fl r (Some x) xs False (gap @ [x])))"
  by pat_completeness auto

lemma first_match_bound:
  "first_match fl r prev s adv = Some (p, rest, cs) \<Longrightarrow>
   length rest \<le> length s \<and> (adv \<longrightarrow> length rest < length s)"
proof -
  assume a: "first_match fl r prev s adv = Some (p, rest, cs)"
  let ?P = "\<lambda>(p, rest, cs). length rest \<le> length s \<and> (adv \<longrightarrow> length rest < length s)"
  from a obtain ms where "filter ?P (rmatch r fl (prev, s, [])) = (p, rest, cs) # ms"
    by (auto simp: first_match_def split: list.splits)
  then have "(p, rest, cs) \<in> set (filter ?P (rmatch r fl (prev, s, [])))"
    by simp
  then show ?thesis by auto
qed

termination scan
  apply (relation "measure (\<lambda>(fl, r, prev, s, adv, gap). 2 * length s + (if adv then 0 else 1))")
    apply simp
   apply (auto dest!: first_match_bound)
  done

datatype ritem = RLit string | RGrp nat

definition expand :: "ritem list \<Rightarrow> caps \<Rightarrow> string" where
  \<comment> \<open>a replacement template such as \<^verbatim>\<open>r'\1'\<close>\<close>
  "expand repl cs =
     concat (map (\<lambda>it. case it of RLit t \<Rightarrow> t
                        | RGrp k \<Rightarrow> (case group cs k of Some t \<Rightarrow> t | None \<Rightarrow> [])) repl)"

definition re_subt :: "flags \<Rightarrow> regex \<Rightarrow> ritem list \<Rightarrow> string \<Rightarrow> string" where
  \<comment> \<open>\<^verbatim>\<open>re.sub(r, repl, s)\<close> with a template\<close>
  "re_subt fl r repl s =
     concat (map (\<lambda>(gap, m). gap @ (case m of None \<Rightarrow> [] | Some (t, cs) \<Rightarrow> expand repl cs))
       (scan fl r None s False []))"

definition re_sub :: "flags \<Rightarrow> regex \<Rightarrow> string \<Rightarrow> string \<Rightarrow> string" where
  \<comment> \<open>\<^verbatim>\<open>re.sub(r, repl, s)\<close> with a literal replacement\<close>
  "re_sub fl r repl s = re_subt fl r [RLit repl] s"

definition re_split :: "flags \<Rightarrow> regex \<Rightarrow> string \<Rightarrow> string list" where
  \<comment> \<open>\<^verbatim>\<open>re.split(r, s)\<close> for a pattern without capture groups\<close>
  "re_split fl r s = map fst (scan fl r None s False [])"

definition re_finditer :: "flags \<Rightarrow> regex \<Rightarrow> string \<Rightarrow> (string \<times> caps) list" where
  \<comment> \<open>the matched text and the groups of each match of \<^verbatim>\<open>re.finditer(r, s)\<close>\<close>
  "re_finditer fl r s = List.map_filter snd (scan fl r None s False [])"

section \<open>postprocessing.py: the fusion engine\<close>

definition Word :: "string \<Rightarrow> regex" where
  \<comment> \<open>\<^verbatim>\<open>\bword\b\<close>\<close>
  "Word w = Seqs [Wordb, Str w, Wordb]"

definition Strs :: "string list \<Rightarrow> regex" where
  \<comment> \<open>\<^verbatim>\<open>a|b|c\<close> of literal texts\<close>
  "Strs ws = Alts (map Str ws)"

definition clean_whitespace :: "string \<Rightarrow> string" where
  \<comment> \<open>\<^verbatim>\<open>re.sub(r'\s+', ' ', s or '').strip(' ,;:\n\t')\<close>\<close>
  "clean_whitespace s =
     strip_chars [CHR 0x20, CHR '','', CHR '';'', CHR '':'', CHR 0x0A, CHR 0x09]
       (re_sub f0 (Plus Sp) '' '' s)"

definition normalize_statute :: "string \<Rightarrow> string" where
  "normalize_statute s0 =
     (let s = strip s0;
          s = re_sub fI (Word ''NI Act'') ''Negotiable Instruments Act, 1881'' s;
          s = re_sub fI (Word ''CrPC'') ''Code of Criminal Procedure, 1973'' s;
          s = re_sub fI (Word ''IPC'') ''Indian Penal Code, 1860'' s;
          s = re_sub fI (Word ''IT Act'') ''Information Technology Act, 2000'' s;
          s = re_sub fI (Word ''BNS'') ''Bharatiya Nyaya Sanhita, 2023'' s
      in s)"

definition re_organisation :: regex where
  \<comment> \<open>\<^verbatim>\<open>\b(state|government|department|commission|bank|society|university|corporation|limited|pvt|ltd|company|union)\b\<close>\<close>
  "re_organisation =
     Seqs [Wordb,
           Grp 1 (Strs [''state'', ''government'', ''department'', ''commission'', ''bank'',
                        ''society'', ''university'', ''corporation'', ''limited'', ''pvt'',
                        ''ltd'', ''company'', ''union'']),
           Wordb]"

definition is_probable_lawyer :: "string \<Rightarrow> bool" where
  "is_probable_lawyer name =
     (if name = [] then False
      else if length (split_ws name) < 2 then False
      else if re_found fI re_organisation name then False
      else if length name < 4 then False
      else True)"

definition re_role_names :: regex where
  \<comment> \<open>\<^verbatim>\<open>(petitioner|appellant|respondent|defendant|plaintiff)\<close>\<close>
  "re_role_names =
     Grp 1 (Strs [''petitioner'', ''appellant'', ''respondent'', ''defendant'', ''plaintiff''])"

definition re_court_header :: regex where
  \<comment> \<open>\<^verbatim>\<open>^(in the\s+supreme\s+court.*|before\s+the.*|civil\s+appellate\s+jurisdiction.*)\<close>\<close>
  "re_court_header =
     Seq Bol (Grp 1 (Alts
       [Seqs [Str ''in the'', Plus Sp, Str ''supreme'', Plus Sp, Str ''court'', Star Dot],
        Seqs [Str ''before'', Plus Sp, Str ''the'', Star Dot],
        Seqs [Str ''civil'', Plus Sp, Str ''appellate'', Plus Sp, Str ''jurisdiction'', Star Dot]]))"

definition re_role_label :: regex where
  \<comment> \<open>\<^verbatim>\<open>^(petitioner|appellant|respondent|defendant|plaintiff)\s*[:\-]\s*\<close>\<close>
  "re_role_label =
     Seqs [Bol, re_role_names, Star Sp, Cls [CC CHR '':'', CC CHR ''-''], Star Sp]"

definition re_citation :: regex where
  \<comment> \<open>\<^verbatim>\<open>\(?\d{4}\)?\s*(SCC|SCR|AIR|All ER).*\<close>\<close>
  "re_citation =
     Seqs [Opt (Chr CHR ''(''), Rep Dg 4 (Some 4) True, Opt (Chr CHR '')''), Star Sp,
           Grp 1 (Strs [''SCC'', ''SCR'', ''AIR'', ''All ER'']), Star Dot]"

definition re_represented :: regex where
  \<comment> \<open>\<^verbatim>\<open>\brepresented by\b|\bthrough\b|\bfiled\b|\bunder\b\<close>\<close>
  "re_represented =
     Alts [Word ''represented by'', Word ''through'', Word ''filed'', Word ''under'']"

definition re_role_end :: regex where
  \<comment> \<open>\<^verbatim>\<open>\b(petitioner|appellant|respondent|defendant|plaintiff)\b$\<close>\<close>
  "re_role_end = Seqs [Wordb, re_role_names, Wordb, Eol]"

definition clean_party_name :: "string \<Rightarrow> string" where
  "clean_party_name name0 =
     (let name = clean_whitespace name0;
          name = re_sub fI re_court_header [] name;
          name = re_sub fI re_role_label [] name;
          name = re_sub fI re_citation [] name;
          name = (case re_split fI re_represented name of [] \<Rightarrow> [] | part # _ \<Rightarrow> part);
          name = re_sub fI re_role_end [] name
      in strip_chars [CHR 0x20, CHR '','', CHR '';'', CHR '':'', CHR ''-''] name)"

definition label_key :: "string \<Rightarrow> string" where
  "label_key label =
     (case map_of
        [(''CASE_NUMBER'', ''case_number''), (''CASE'', ''case_number''), (''COURT'', ''court''),
         (''DATE'', ''date''), (''JUDGE'', ''coram''), (''CORAM'', ''coram''),
         (''PETITIONER'', ''petitioner''), (''APPELLANT'', ''petitioner''),
         (''RESPONDENT'', ''respondent''), (''PRECEDENT'', ''precedent''),
         (''PRECEDENTS'', ''precedent''), (''PROVISION'', ''provision''),
         (''STATUTE'', ''statute''), (''LAWYER'', ''lawyer''), (''GPE'', ''gpe''),
         (''ORGANIZATION'', ''organization'')] (upper label) of
        Some k \<Rightarrow> k
      | None \<Rightarrow> lower label)"

subsection \<open>Fuzzy deduplication of precedents\<close>

text \<open>
  Two things in \<^verbatim>\<open>_deduplicate_precedents\<close> are decided outside the repository, and are
  parameters of the model.  \<open>sim a b\<close> is the verdict
  \<^verbatim>\<open>SequenceMatcher(None, a, b).ratio() > 0.85\<close> of Python's difflib.  \<open>ord\<close> is the order
  in which a Python set of strings is iterated: it depends on the string hashes of the
  running process, and is applied to the distinct elements in insertion order.
\<close>

fun first_occ :: "'a list \<Rightarrow> 'a list" where
  \<comment> \<open>the distinct elements, in the order of their first occurrence\<close>
  "first_occ [] = []"
| "first_occ (x # xs) = x # filter (\<lambda>y. y \<noteq> x) (first_occ xs)"

definition set_iter :: "(string list \<Rightarrow> string list) \<Rightarrow> string list \<Rightarrow> string list" where
  \<comment> \<open>iterating over \<^verbatim>\<open>set(xs)\<close>\<close>
  "set_iter ord xs = ord (first_occ xs)"

definition re_year_suffix :: regex where
  \<comment> \<open>\<^verbatim>\<open>\s*\(\d{4}\).*$\<close>\<close>
  "re_year_suffix =
     Seqs [Star Sp, Chr CHR ''('', Rep Dg 4 (Some 4) True, Chr CHR '')'', Star Dot, Eol]"

definition re_reporter_suffix :: regex where
  \<comment> \<open>\<^verbatim>\<open>\s+(SCC|SCR|AIR).*$\<close>\<close>
  "re_reporter_suffix =
     Seqs [Plus Sp, Grp 1 (Strs [''SCC'', ''SCR'', ''AIR'']), Star Dot, Eol]"

definition base_name :: "string \<Rightarrow> string" where
  "base_name prec =
     strip (re_sub fI re_reporter_suffix [] (strip (re_sub f0 re_year_suffix [] prec)))"

fun dedup_loop :: "(string \<Rightarrow> string \<Rightarrow> bool) \<Rightarrow> string list \<Rightarrow> string list \<Rightarrow>
    string list \<Rightarrow> string list" where
  \<comment> \<open>the loop over \<^verbatim>\<open>precedents_sorted\<close>, with \<^verbatim>\<open>unique\<close> and \<^verbatim>\<open>seen_base_names\<close>\<close>
  "dedup_loop sim unique seen [] = unique"
| "dedup_loop sim unique seen (prec # ps) =
     (let base = base_name prec; base_lower = lower base in
      if length base < 10 then dedup_loop sim unique seen ps
      else if list_ex (\<lambda>s. sim base_lower s) seen then dedup_loop sim unique seen ps
      else dedup_loop sim (unique @ [prec]) (seen @ [base_lower]) ps)"

definition precedents_sorted :: "(string list \<Rightarrow> string list) \<Rightarrow> string list \<Rightarrow> string list" where
  \<comment> \<open>\<^verbatim>\<open>sorted(set(precedents), key=len, reverse=True)\<close>: a stable sort, longest first\<close>
  "precedents_sorted ord precedents =
     sort_key (\<lambda>p. - int (length p)) (set_iter ord precedents)"

definition deduplicate_precedents :: "(string \<Rightarrow> string \<Rightarrow> bool) \<Rightarrow> (string list \<Rightarrow> string list) \<Rightarrow>
    string list \<Rightarrow> string list" where
  "deduplicate_precedents sim ord precedents =
     (if precedents = [] then []
      else take 15 (dedup_loop sim [] [] (precedents_sorted ord precedents)))"

subsection \<open>merge\_entities\<close>

definition re_provenance :: regex where
  \<comment> \<open>\<^verbatim>\<open>^(.*?)(?:\s*\[(header|body)\])?\s*$\<close>\<close>
  "re_provenance =
     Seqs [Bol, Grp 1 (LazyStar Dot),
           Opt (Seqs [Star Sp, Chr CHR ''['', Grp 2 (Strs [''header'', ''body'']), Chr CHR '']'']),
           Star Sp, Eol]"

definition re_honble :: regex where
  \<comment> \<open>\<^verbatim>\<open>Hon['\<close>U+2019\<^verbatim>\<open>]?\s*ble\.?\s*\<close>; the typographic apostrophe U+2019 is outside the
      alphabet of the model\<close>
  "re_honble =
     Seqs [Str ''Hon'', Opt (Cls [CC (CHR 0x27)]), Star Sp, Str ''ble'', Opt (Chr CHR ''.''), Star Sp]"

definition re_mr_justice :: regex where
  \<comment> \<open>\<^verbatim>\<open>\bMr\.?\s+Justice\b\<close>\<close>
  "re_mr_justice = Seqs [Wordb, Str ''Mr'', Opt (Chr CHR ''.''), Plus Sp, Str ''Justice'', Wordb]"

definition bert_item :: "string \<times> string \<Rightarrow> (string \<times> string \<times> string) option" where
  \<comment> \<open>one round of loop 1: the key, the value and the provenance appended to \<^verbatim>\<open>accum\<close>\<close>
  "bert_item e =
     (case e of (label, raw) \<Rightarrow>
       let lab = strip (upper label);
           (val, prov) =
             (case re_match f0 re_provenance raw of
                Some (m, rest, cs) \<Rightarrow>
                  (clean_whitespace (case group cs 1 of Some t \<Rightarrow> t | None \<Rightarrow> []),
                   lower (case group cs 2 of Some t \<Rightarrow> t | None \<Rightarrow> []))
              | None \<Rightarrow> (clean_whitespace raw, []))
       in if val = [] then None
          else
            let key = label_key lab;
                val = (if key = ''statute'' then normalize_statute val else val);
                val = (if key = ''coram''
                       then re_sub f0 re_mr_justice ''Justice'' (re_sub fI re_honble [] val)
                       else val)
            in Some (key, val, if prov = [] then ''bert'' else prov))"

definition spacy_item :: "string \<times> string \<Rightarrow> (string \<times> string \<times> string) option" where
  \<comment> \<open>one round of loop 2\<close>
  "spacy_item e =
     (case e of (label, val) \<Rightarrow>
       if val = [] then None
       else
         let key = label_key label;
             v = clean_whitespace val;
             v = (if key = ''statute'' then normalize_statute v else v)
         in Some (key, v, ''spacy''))"

definition accum :: "(string \<times> string) list \<Rightarrow> (string \<times> string) list \<Rightarrow>
    (string \<times> string \<times> string) list" where
  \<comment> \<open>the appends to \<^verbatim>\<open>accum\<close> in the order they are made; \<^verbatim>\<open>accum[key]\<close> is \<open>items_of key\<close>\<close>
  "accum bert_ents_list spacy_regex_ents =
     List.map_filter bert_item bert_ents_list @ List.map_filter spacy_item spacy_regex_ents"

definition items_of :: "string \<Rightarrow> (string \<times> string \<times> string) list \<Rightarrow> (string \<times> string) list" where
  "items_of key acc = map snd (filter (\<lambda>e. fst e = key) acc)"

definition re_connective :: regex where
  \<comment> \<open>\<^verbatim>\<open>^(and|&|-)$\<close>\<close>
  "re_connective = Seqs [Bol, Grp 1 (Strs [''and'', ''&'', ''-'']), Eol]"

definition re_honble_start :: regex where
  \<comment> \<open>\<^verbatim>\<open>^(Hon['\<close>U+2019\<^verbatim>\<open>]?\s*ble\.?\s*)\<close>\<close>
  "re_honble_start = Seq Bol (Grp 1 re_honble)"

definition re_banner :: regex where
  \<comment> \<open>\<^verbatim>\<open>^[A-Z\s]{3,200}$\<close>\<close>
  "re_banner = Seqs [Bol, Rep (Cls [CR CHR ''A'' CHR ''Z'', CSpace]) 3 (Some 200) True, Eol]"

definition re_counsel_title :: regex where
  \<comment> \<open>\<^verbatim>\<open>\b(Sr\.?\s*Adv|Advocate|Adv\.|A\.S\.G\.?|A\.A\.G\.?|AOR)\b\<close>\<close>
  "re_counsel_title =
     Seqs [Wordb,
           Grp 1 (Alts
             [Seqs [Str ''Sr'', Opt (Chr CHR ''.''), Star Sp, Str ''Adv''],
              Str ''Advocate'',
              Str ''Adv.'',
              Seqs [Str ''A.S.G'', Opt (Chr CHR ''.'')],
              Seqs [Str ''A.A.G'', Opt (Chr CHR ''.'')],
              Str ''AOR'']),
           Wordb]"

definition clean_value :: "string \<Rightarrow> string \<Rightarrow> string option" where
  \<comment> \<open>the body of the cleaning loop up to the test against \<^verbatim>\<open>seen\<close>: None where the loop
      says \<^verbatim>\<open>continue\<close>, otherwise the cleaned text \<^verbatim>\<open>v2\<close>\<close>
  "clean_value key v =
     (if v = [] then None
      else
        let v2 = strip_chars ''.,;:'' (strip v) in
        case (if key = ''coram'' then
                (if re_match fI re_connective v2 \<noteq> None then None
                 else if length (split_ws v2) = 1 \<and> \<not> re_found fI (Str ''justice'') v2 \<and>
                         \<not> (contains ''.'' v2 \<or> isupper v2) then None
                 else Some (strip (re_sub fI re_honble_start [] v2)))
              else Some v2) of
          None \<Rightarrow> None
        | Some v2 \<Rightarrow>
        case (if key \<in> {''petitioner'', ''respondent''} then
                (let v2 = clean_party_name v2 in
                 if v2 = [] \<or> length (split_ws v2) < 2 then None else Some v2)
              else if key = ''organization'' then
                (if re_match f0 re_banner v2 \<noteq> None \<and> 2 < length (split_ws v2) then None
                 else Some v2)
              else Some v2) of
          None \<Rightarrow> None
        | Some v2 \<Rightarrow>
        case (if key = ''lawyer'' then
                (let v2 = strip (re_sub fI re_counsel_title [] v2) in
                 if \<not> is_probable_lawyer v2 then None else Some v2)
              else Some v2) of
          None \<Rightarrow> None
        | Some v2 \<Rightarrow>
        if key = ''statute'' \<and> length v2 < 6 then None
        else if key = ''precedent'' \<and> length v2 < 15 then None
        else Some v2)"

fun clean_loop :: "string \<Rightarrow> string set \<Rightarrow> string list \<Rightarrow> string list" where
  \<comment> \<open>the cleaning loop over \<^verbatim>\<open>combined\<close>, with the set \<^verbatim>\<open>seen\<close>; the result is \<^verbatim>\<open>cleaned\<close>\<close>
  "clean_loop key seen [] = []"
| "clean_loop key seen (v # vs) =
     (case clean_value key v of
        None \<Rightarrow> clean_loop key seen vs
      | Some v2 \<Rightarrow>
          if lower v2 \<in> seen then clean_loop key seen vs
          else v2 # clean_loop key (insert (lower v2) seen) vs)"

definition header_vals :: "(string \<times> string) list \<Rightarrow> string list" where
  "header_vals items = map fst (filter (\<lambda>(v, prov). contains ''header'' (lower prov)) items)"

definition bert_vals :: "(string \<times> string) list \<Rightarrow> string list" where
  "bert_vals items =
     map fst (filter (\<lambda>(v, prov). \<not> contains ''header'' (lower prov) \<and> lower prov = ''bert'') items)"

definition spacy_vals :: "(string \<times> string) list \<Rightarrow> string list" where
  "spacy_vals items =
     map fst (filter (\<lambda>(v, prov). \<not> contains ''header'' (lower prov) \<and> lower prov \<noteq> ''bert'') items)"

definition combined :: "(string \<times> string) list \<Rightarrow> string list" where
  "combined items = header_vals items @ bert_vals items @ spacy_vals items"

definition fuse :: "(string \<Rightarrow> string \<Rightarrow> bool) \<Rightarrow> (string list \<Rightarrow> string list) \<Rightarrow> string \<Rightarrow>
    (string \<times> string) list \<Rightarrow> string list" where
  \<comment> \<open>step 3 for one key of \<^verbatim>\<open>accum\<close>\<close>
  "fuse sim ord key items =
     clean_loop key {}
       (if key = ''precedent'' then deduplicate_precedents sim ord (combined items)
        else combined items)"

definition expected :: "string list" where
  "expected = [''case_number'', ''court'', ''date'', ''coram'', ''petitioner'', ''respondent'',
               ''lawyer'', ''precedent'', ''provision'', ''statute'', ''gpe'', ''organization'']"

definition re_versus_split :: regex where
  \<comment> \<open>\<^verbatim>\<open>\s+v[.]?s?[.]?\s+\<close>\<close>
  "re_versus_split =
     Seqs [Plus Sp, Chr CHR ''v'', Opt (Cls [CC CHR ''.'']), Opt (Chr CHR ''s''),
           Opt (Cls [CC CHR ''.'']), Plus Sp]"

definition infer_parties_from_case_name :: "string \<Rightarrow> string option \<times> string option" where
  "infer_parties_from_case_name case_name =
     (if case_name = [] \<or> \<not> contains '' v'' (lower case_name) then (None, None)
      else
        (case re_split fI re_versus_split case_name of
           [a, b] \<Rightarrow> (Some (strip a), Some (strip b))
         | _ \<Rightarrow> (None, None)))"

definition get_list :: "(string \<rightharpoonup> string list) \<Rightarrow> string \<Rightarrow> string list" where
  \<comment> \<open>\<^verbatim>\<open>final.get(key, [])\<close>\<close>
  "get_list m k = (case m k of Some xs \<Rightarrow> xs | None \<Rightarrow> [])"

definition extras :: "string list \<Rightarrow> string list" where
  \<comment> \<open>\<^verbatim>\<open>xs[1:] if len(xs) > 1 else []\<close>\<close>
  "extras xs = (if 1 < length xs then drop 1 xs else [])"

definition fused :: "(string \<Rightarrow> string \<Rightarrow> bool) \<Rightarrow> (string list \<Rightarrow> string list) \<Rightarrow>
    (string \<times> string \<times> string) list \<Rightarrow> (string \<rightharpoonup> string list)" where
  \<comment> \<open>3) prioritize and clean: \<^verbatim>\<open>final\<close> after the loop over \<^verbatim>\<open>accum.items()\<close>\<close>
  "fused sim ord acc =
     (\<lambda>key. if key \<in> fst ` set acc then Some (fuse sim ord key (items_of key acc)) else None)"

definition with_expected :: "(string \<rightharpoonup> string list) \<Rightarrow> (string \<rightharpoonup> string list)" where
  \<comment> \<open>4) ensure all expected keys exist\<close>
  "with_expected final = (\<lambda>k. if k \<in> set expected \<and> final k = None then Some [] else final k)"

definition with_extras :: "(string \<rightharpoonup> string list) \<Rightarrow> (string \<rightharpoonup> string list)" where
  \<comment> \<open>5) compatibility extras\<close>
  "with_extras final =
     (let final = final(''extra_case_numbers'' \<mapsto> extras (get_list final ''case_number''));
          final = final(''extra_courts'' \<mapsto> extras (get_list final ''court''));
          final = final(''extra_dates'' \<mapsto> extras (get_list final ''date''))
      in final)"

definition add_party :: "string \<Rightarrow> string option \<Rightarrow> (string \<rightharpoonup> string list) \<Rightarrow>
    (string \<rightharpoonup> string list)" where
  \<comment> \<open>\<^verbatim>\<open>if pet: final[k].append(pet)\<close>\<close>
  "add_party k p final =
     (case p of
        Some t \<Rightarrow> if t \<noteq> [] then final(k \<mapsto> get_list final k @ [t]) else final
      | None \<Rightarrow> final)"

definition with_inferred_parties :: "(string \<rightharpoonup> string list) \<Rightarrow> (string \<rightharpoonup> string list)" where
  \<comment> \<open>6) fallback: infer parties from case name\<close>
  "with_inferred_parties final =
     (if get_list final ''petitioner'' = [] \<and> get_list final ''respondent'' = [] then
        (case infer_parties_from_case_name
                (case get_list final ''case_name'' of [] \<Rightarrow> [] | c # _ \<Rightarrow> c) of
           (pet, resp) \<Rightarrow> add_party ''respondent'' resp (add_party ''petitioner'' pet final))
      else final)"

definition merge_entities :: "(string \<Rightarrow> string \<Rightarrow> bool) \<Rightarrow> (string list \<Rightarrow> string list) \<Rightarrow>
    (string \<times> string) list \<Rightarrow> (string \<times> string) list \<Rightarrow> (string \<rightharpoonup> string list)" where
  "merge_entities sim ord bert_ents_list spacy_regex_ents =
     with_inferred_parties (with_extras (with_expected
       (fused sim ord (accum bert_ents_list spacy_regex_ents))))"

definition valid_iteration :: "(string list \<Rightarrow> string list) \<Rightarrow> bool" where
  \<comment> \<open>iterating over a set yields each of its elements once\<close>
  "valid_iteration ord = (\<forall>ys. distinct ys \<longrightarrow> distinct (ord ys) \<and> set (ord ys) = set ys)"

section \<open>selectors.py: the primary date\<close>

subsection \<open>datetime.strptime\<close>















subsection \<open>\_try\_parse\_date and select\_primary\_date\<close>











section \<open>segmenter.py\<close>

datatype zone = Header | Body | Order

record seg_state =
  state :: zone
  header_lines :: "string list"
  body_lines :: "string list"
  order_lines :: "string list"

record segments =
  header :: string
  body :: string
  order :: string

definition re_header_shape :: regex where
  \<comment> \<open>\<^verbatim>\<open>^[A-Z0-9 \.\-\(\)\,\:\[\]]{5,200}$\<close>\<close>
  "re_header_shape =
     Seqs [Bol,
           Rep (Cls [CR CHR ''A'' CHR ''Z'', CR CHR ''0'' CHR ''9'', CC CHR '' '', CC CHR ''.'',
                     CC CHR ''-'', CC CHR ''('', CC CHR '')'', CC CHR '','', CC CHR '':'',
                     CC CHR ''['', CC CHR '']'']) 5 (Some 200) True,
           Eol]"

definition header_markers :: "string list" where
  "header_markers =
     [''IN THE SUPREME COURT'', ''CIVIL APPELLATE'', ''CRIMINAL APPELLATE'',
      ''IN THE HIGH COURT'', ''BENCH'', ''JUDGMENT'', ''CORAM'', ''CASE'',
      ''Crl.O.P'', ''CRLMC'', ''CRIMINAL APPLICATION'', ''CIVIL APPEAL'',
      ''Appearances for Parties'', ''Appearances'', ''Date of Judgment'']"

definition re_caption :: regex where
  \<comment> \<open>\<^verbatim>\<open>\b v\.|\bv\s+v\b| v\.? $\<close>\<close>
  "re_caption =
     Alts [Seqs [Wordb, Str '' v.''],
           Seqs [Wordb, Chr CHR ''v'', Plus Sp, Chr CHR ''v'', Wordb],
           Seqs [Str '' v'', Opt (Chr CHR ''.''), Chr CHR '' '', Eol]]"

definition re_caption_inner :: regex where
  \<comment> \<open>\<^verbatim>\<open>\b v\. \b\<close>\<close>
  "re_caption_inner = Seqs [Wordb, Str '' v. '', Wordb]"

definition re_case_number_short :: regex where
  \<comment> \<open>\<^verbatim>\<open>\b(No\.|CRL|Crl\.O\.P|Crime No|C\.A\.|C\.C\.)\b\<close>\<close>
  "re_case_number_short =
     Seqs [Wordb, Grp 1 (Strs [''No.'', ''CRL'', ''Crl.O.P'', ''Crime No'', ''C.A.'', ''C.C.'']), Wordb]"

definition is_header_line :: "string \<Rightarrow> bool" where
  "is_header_line line0 =
     (let line = strip line0 in
      if line = [] then False
      else if re_match f0 re_header_shape line \<noteq> None \<and> length (split_ws line) \<le> 12 then True
      else if list_ex (\<lambda>m. contains (lower m) (lower line)) header_markers then True
      else if re_found fI re_caption line \<or> re_found f0 re_caption_inner line then True
      else if re_found fI re_case_number_short line then True
      else False)"

definition order_markers :: "regex list" where
  \<comment> \<open>\<^verbatim>\<open>^\s*O R D E R\b\<close>, \<^verbatim>\<open>^\s*ORDER\b\<close>, \<^verbatim>\<open>^\s*Held:\<close>, \<^verbatim>\<open>^\s*DISPOSED\b\<close>,
      \<^verbatim>\<open>^\s*CONCLUSION\b\<close>, \<^verbatim>\<open>^\s*JUDGMENT\b\<close>, \<^verbatim>\<open>^\s*TAKE NOTICE\b\<close>\<close>
  "order_markers =
     [Seqs [Bol, Star Sp, Str ''O R D E R'', Wordb],
      Seqs [Bol, Star Sp, Str ''ORDER'', Wordb],
      Seqs [Bol, Star Sp, Str ''Held:''],
      Seqs [Bol, Star Sp, Str ''DISPOSED'', Wordb],
      Seqs [Bol, Star Sp, Str ''CONCLUSION'', Wordb],
      Seqs [Bol, Star Sp, Str ''JUDGMENT'', Wordb],
      Seqs [Bol, Star Sp, Str ''TAKE NOTICE'', Wordb]]"

definition looks_like_order_start :: "string \<Rightarrow> bool" where
  "looks_like_order_start line = list_ex (\<lambda>pat. re_found fI pat line) order_markers"

definition re_body_start :: regex where
  \<comment> \<open>\<^verbatim>\<open>^\s*(Issue for Consideration|Issue|Background|Facts|Background and Facts|From the Judgment|Judgment|Heard)\<close>\<close>
  "re_body_start =
     Seqs [Bol, Star Sp,
           Grp 1 (Strs [''Issue for Consideration'', ''Issue'', ''Background'', ''Facts'',
                        ''Background and Facts'', ''From the Judgment'', ''Judgment'', ''Heard''])]"

definition re_verbs :: regex where
  \<comment> \<open>\<^verbatim>\<open>\b(is|are|was|were|held|observed|submitted|submitted that|observed that)\b\<close>\<close>
  "re_verbs =
     Seqs [Wordb,
           Grp 1 (Strs [''is'', ''are'', ''was'', ''were'', ''held'', ''observed'', ''submitted'',
                        ''submitted that'', ''observed that'']),
           Wordb]"

definition re_embedded_order :: regex where
  \<comment> \<open>\<^verbatim>\<open>(?:\n|^)(Held:|ORDER|O R D E R:|ORDER:)(.*)$\<close>\<close>
  "re_embedded_order =
     Seqs [Alt (Chr newline) Bol,
           Grp 1 (Strs [''Held:'', ''ORDER'', ''O R D E R:'', ''ORDER:'']),
           Grp 2 (Star Dot), Eol]"

definition to_body :: "seg_state \<Rightarrow> string \<Rightarrow> seg_state" where
  \<comment> \<open>\<^verbatim>\<open>state = "body"; body_lines.append(stripped); continue\<close>\<close>
  "to_body st stripped = st\<lparr>state := Body, body_lines := body_lines st @ [stripped]\<rparr>"

definition append_line :: "seg_state \<Rightarrow> string \<Rightarrow> seg_state" where
  \<comment> \<open>append the line to the buffer of the current state\<close>
  "append_line st stripped =
     (case state st of
        Header \<Rightarrow> st\<lparr>header_lines := header_lines st @ [stripped]\<rparr>
      | Body \<Rightarrow> st\<lparr>body_lines := body_lines st @ [stripped]\<rparr>
      | Order \<Rightarrow> st\<lparr>order_lines := order_lines st @ [stripped]\<rparr>)"

definition seg_step :: "seg_state \<Rightarrow> string \<Rightarrow> seg_state" where
  \<comment> \<open>one round of the loop over the lines\<close>
  "seg_step st0 raw =
     (let stripped = strip (rstrip_chars [newline] raw) in
      if stripped = [] then
        (if state st0 = Body \<and> body_lines st0 \<noteq> [] \<and> last (body_lines st0) \<noteq> []
         then st0\<lparr>body_lines := body_lines st0 @ [[]]\<rparr> else st0)
      else
        let st = (if looks_like_order_start stripped then st0\<lparr>state := Order\<rparr> else st0) in
        if state st = Header then
          (if re_found fI re_body_start stripped then to_body st stripped
           else if 50 < length (header_lines st) then to_body st stripped
           else if \<not> is_header_line stripped \<and> re_found fI re_verbs stripped then to_body st stripped
           else append_line st stripped)
        else append_line st stripped)"

definition split_segments :: "string \<Rightarrow> segments" where
  "split_segments text =
     (let st = foldl seg_step
                 \<lparr>state = Header, header_lines = [], body_lines = [], order_lines = []\<rparr>
                 (splitlines text);
          header = strip (join [newline] (header_lines st));
          body = strip (join [newline] (body_lines st));
          order = strip (join [newline] (order_lines st))
      in if order = [] \<and> body \<noteq> [] then
           (case re_search fIS re_embedded_order body of
              Some (gap, m, rest, cs) \<Rightarrow>
                \<comment> \<open>\<^verbatim>\<open>m.start()\<close> is the length of \<open>gap\<close>\<close>
                \<lparr>header = header,
                 body = strip (take (length gap) body),
                 order = strip (drop (length gap) body)\<rparr>
            | None \<Rightarrow> \<lparr>header = header, body = body, order = order\<rparr>)
         else \<lparr>header = header, body = body, order = order\<rparr>)"

definition nonblank_lines :: "string \<Rightarrow> string list" where
  \<comment> \<open>the lines of a text that are not blank, each stripped\<close>
  "nonblank_lines s = filter (\<lambda>l. l \<noteq> []) (map strip (splitlines s))"

subsection \<open>Notions used to state the partition property\<close>

definition all_space :: "string \<Rightarrow> bool" where
  "all_space w = (\<forall>c\<in>set w. is_space c)"

definition nb_from :: "string \<Rightarrow> string \<Rightarrow> string list" where
  "nb_from cur s = filter (\<lambda>l. l \<noteq> []) (map strip (lines_from cur s))"

definition break_free :: "string \<Rightarrow> bool" where
  "break_free l = (\<forall>c\<in>set l. c \<notin> set line_breaks)"

definition zlines :: "seg_state \<Rightarrow> string list" where
  "zlines st = header_lines st @ body_lines st @ order_lines st"

definition ordered :: "seg_state \<Rightarrow> bool" where
  "ordered st = ((state st = Header \<longrightarrow> body_lines st = [] \<and> order_lines st = []) \<and>
                 (state st = Body \<longrightarrow> order_lines st = []))"

definition clean_line :: "string \<Rightarrow> bool" where
  "clean_line l = (break_free l \<and> strip l = l)"

section \<open>party\_extractor.py\<close>

definition re_party_suffix :: regex where
  \<comment> \<open>\<^verbatim>\<open>\b(?:&\s*Anr\.?|&\s*Ors\.?|and\s+Another|and\s+Others)\b\<close>\<close>
  "re_party_suffix =
     Seqs [Wordb,
           Alts [Seqs [Chr CHR ''&'', Star Sp, Str ''Anr'', Opt (Chr CHR ''.'')],
                 Seqs [Chr CHR ''&'', Star Sp, Str ''Ors'', Opt (Chr CHR ''.'')],
                 Seqs [Str ''and'', Plus Sp, Str ''Another''],
                 Seqs [Str ''and'', Plus Sp, Str ''Others'']],
           Wordb]"

definition re_role_marker :: regex where
  \<comment> \<open>\<^verbatim>\<open>\b(?:Petitioner|Appellant|Respondent|Defendant)\b.*$\<close>\<close>
  "re_role_marker =
     Seqs [Wordb, Strs [''Petitioner'', ''Appellant'', ''Respondent'', ''Defendant''], Wordb,
           Star Dot, Eol]"

definition re_numeric_date :: regex where
  \<comment> \<open>\<^verbatim>\<open>\b\d{1,2}[./-]\d{1,2}[./-]\d{2,4}\b\<close>\<close>
  "re_numeric_date =
     Seqs [Wordb, Rep Dg 1 (Some 2) True, Cls [CC CHR ''.'', CC CHR ''/'', CC CHR ''-''],
           Rep Dg 1 (Some 2) True, Cls [CC CHR ''.'', CC CHR ''/'', CC CHR ''-''],
           Rep Dg 2 (Some 4) True, Wordb]"

definition re_month_date :: regex where
  \<comment> \<open>\<^verbatim>\<open>\b\d{1,2}\s+(?:Jan|Feb|Mar|Apr|May|Jun|Jul|Aug|Sep|Oct|Nov|Dec)[a-z]*\s+\d{4}\b\<close>\<close>
  "re_month_date =
     Seqs [Wordb, Rep Dg 1 (Some 2) True, Plus Sp,
           Strs [''Jan'', ''Feb'', ''Mar'', ''Apr'', ''May'', ''Jun'', ''Jul'', ''Aug'', ''Sep'',
                 ''Oct'', ''Nov'', ''Dec''],
           Star (Cls [CR CHR ''a'' CHR ''z'']), Plus Sp, Rep Dg 4 (Some 4) True, Wordb]"

definition re_bracket_year :: regex where
  \<comment> \<open>\<^verbatim>\<open>\[\d{4}\]\<close>\<close>
  "re_bracket_year = Seqs [Chr CHR ''['', Rep Dg 4 (Some 4) True, Chr CHR '']'']"

definition re_paren_year :: regex where
  \<comment> \<open>\<^verbatim>\<open>\(\d{4}\)\<close>\<close>
  "re_paren_year = Seqs [Chr CHR ''('', Rep Dg 4 (Some 4) True, Chr CHR '')'']"

definition re_reporter :: regex where
  \<comment> \<open>\<^verbatim>\<open>\b(?:SCC|SCR|INSC|AIR)\s+\d+\<close>\<close>
  "re_reporter = Seqs [Wordb, Strs [''SCC'', ''SCR'', ''INSC'', ''AIR''], Plus Sp, Plus Dg]"

definition re_case_no :: regex where
  \<comment> \<open>\<^verbatim>\<open>\bNo\.?\s*\d+\<close>\<close>
  "re_case_no = Seqs [Wordb, Str ''No'', Opt (Chr CHR ''.''), Star Sp, Plus Dg]"

definition re_criminal_appeal :: regex where
  \<comment> \<open>\<^verbatim>\<open>\bCriminal\s+Appeal\b.*$\<close>\<close>
  "re_criminal_appeal =
     Seqs [Wordb, Str ''Criminal'', Plus Sp, Str ''Appeal'', Wordb, Star Dot, Eol]"

definition re_crlop :: regex where
  \<comment> \<open>\<^verbatim>\<open>\bCrl\.?O\.?P\.?\b.*$\<close>\<close>
  "re_crlop =
     Seqs [Wordb, Str ''Crl'', Opt (Chr CHR ''.''), Chr CHR ''O'', Opt (Chr CHR ''.''),
           Chr CHR ''P'', Opt (Chr CHR ''.''), Wordb, Star Dot, Eol]"

definition re_rep_by :: regex where
  \<comment> \<open>\<^verbatim>\<open>\bRep(?:resented)?\.?\s+by\b.*$\<close>\<close>
  "re_rep_by =
     Seqs [Wordb, Str ''Rep'', Opt (Str ''resented''), Opt (Chr CHR ''.''), Plus Sp, Str ''by'',
           Wordb, Star Dot, Eol]"

definition re_through :: regex where
  \<comment> \<open>\<^verbatim>\<open>\bThrough\b.*$\<close>\<close>
  "re_through = Seqs [Wordb, Str ''Through'', Wordb, Star Dot, Eol]"

definition re_trailing_preposition :: regex where
  \<comment> \<open>\<^verbatim>\<open>\s+(?:in|of|the|at|to)\s*$\<close>\<close>
  "re_trailing_preposition =
     Seqs [Plus Sp, Strs [''in'', ''of'', ''the'', ''at'', ''to''], Star Sp, Eol]"

definition clean_party_chunk :: "string \<Rightarrow> string" where
  "clean_party_chunk chunk0 =
     (if chunk0 = [] then []
      else
        let chunk = re_sub fI re_party_suffix [] chunk0;
            chunk = re_sub fI re_role_marker [] chunk;
            chunk = re_sub f0 re_numeric_date [] chunk;
            chunk = re_sub fI re_month_date [] chunk;
            chunk = re_sub f0 re_bracket_year [] chunk;
            chunk = re_sub f0 re_paren_year [] chunk;
            chunk = re_sub fI re_reporter [] chunk;
            chunk = re_sub fI re_case_no [] chunk;
            chunk = re_sub fI re_criminal_appeal [] chunk;
            chunk = re_sub fI re_crlop [] chunk;
            chunk = re_sub fI re_rep_by [] chunk;
            chunk = re_sub fI re_through [] chunk;
            chunk = re_sub fI re_trailing_preposition [] chunk
        in strip_chars [CHR 0x20, CHR ''.'', CHR '','', CHR '';'', CHR '':'', CHR ''-'']
             (re_sub f0 (Plus Sp) '' '' chunk))"

definition re_name_delimiter :: regex where
  \<comment> \<open>\<^verbatim>\<open>\s*(?:,|;|\band\b|\&)\s*\<close>\<close>
  "re_name_delimiter =
     Seqs [Star Sp, Alts [Chr CHR '','', Chr CHR '';'', Word ''and'', Chr CHR ''&''], Star Sp]"

definition re_capital_start :: regex where
  \<comment> \<open>\<^verbatim>\<open>^[A-Z]\<close>\<close>
  "re_capital_start = Seq Bol (Cls [CR CHR ''A'' CHR ''Z''])"

definition keep_name :: "string \<Rightarrow> bool" where
  \<comment> \<open>the tests a cleaned part passes before it is appended to \<^verbatim>\<open>names\<close>\<close>
  "keep_name part =
     (part \<noteq> [] \<and> 3 \<le> length part \<and> re_match f0 re_capital_start part \<noteq> None \<and>
      \<not> re_found fI re_case_no part)"

fun unique_names :: "string list \<Rightarrow> string list \<Rightarrow> string list \<Rightarrow> string list" where
  \<comment> \<open>the deduplication loop: \<open>seen\<close> holds the lowercased keys, \<open>unique\<close> the names kept\<close>
  "unique_names seen unique [] = unique"
| "unique_names seen unique (n # ns) =
     (if lower n \<in> set seen then unique_names seen unique ns
      else unique_names (lower n # seen) (unique @ [n]) ns)"

definition extract_names_from_block :: "string \<Rightarrow> string list" where
  "extract_names_from_block block =
     (if block = [] then []
      else
        let parts = re_split fI re_name_delimiter block;
            names = filter keep_name (map clean_party_chunk parts)
        in unique_names [] [] names)"

definition Cap :: citem where
  "Cap = CR CHR ''A'' CHR ''Z''"

definition re_versus_block :: regex where
  \<comment> \<open>\<^verbatim>\<open>^([A-Z][A-Z\s\.,&]+?)\s*\n\s*(?:VERSUS|V[Ss]?\.?)\s*\n\s*([A-Z][A-Z\s\.,&]+?)(?:\n|$)\<close>\<close>
  "re_versus_block =
     Seqs [Bol,
           Grp 1 (Seq (Cls [Cap]) (LazyPlus (Cls [Cap, CSpace, CC CHR ''.'', CC CHR '','', CC CHR ''&'']))),
           Star Sp, Chr newline, Star Sp,
           Alt (Str ''VERSUS'')
               (Seqs [Chr CHR ''V'', Opt (Cls [CC CHR ''S'', CC CHR ''s'']), Opt (Chr CHR ''.'')]),
           Star Sp, Chr newline, Star Sp,
           Grp 2 (Seq (Cls [Cap]) (LazyPlus (Cls [Cap, CSpace, CC CHR ''.'', CC CHR '','', CC CHR ''&'']))),
           Alt (Chr newline) Eol]"

definition name_class :: "citem list" where
  \<comment> \<open>\<^verbatim>\<open>[A-Za-z\s\.,&]\<close>\<close>
  "name_class = [Cap, CR CHR ''a'' CHR ''z'', CSpace, CC CHR ''.'', CC CHR '','', CC CHR ''&'']"

definition re_inline_versus :: regex where
  \<comment> \<open>\<^verbatim>\<open>([A-Z][A-Za-z\s\.,&]{3,60}?)\s+v\.?s?\.?\s+([A-Z][A-Za-z\s\.,&]{3,60}?)(?=\s*(?:Petitioner|Respondent|Appellant|\(|IN THE|CORAM|Date|$))\<close>\<close>
  "re_inline_versus =
     Seqs [Grp 1 (Seq (Cls [Cap]) (Rep (Cls name_class) 3 (Some 60) False)),
           Plus Sp, Chr CHR ''v'', Opt (Chr CHR ''.''), Opt (Chr CHR ''s''), Opt (Chr CHR ''.''),
           Plus Sp,
           Grp 2 (Seq (Cls [Cap]) (Rep (Cls name_class) 3 (Some 60) False)),
           Look (Seq (Star Sp)
                  (Alts [Str ''Petitioner'', Str ''Respondent'', Str ''Appellant'', Chr CHR ''('',
                         Str ''IN THE'', Str ''CORAM'', Str ''Date'', Eol]))]"

definition re_label_sep :: regex where
  \<comment> \<open>\<^verbatim>\<open>(?:\(s\))?\s*[:\-]\s*\<close>\<close>
  "re_label_sep =
     Seqs [Opt (Str ''(s)''), Star Sp, Cls [CC CHR '':'', CC CHR ''-''], Star Sp]"

definition re_appellant_line :: regex where
  \<comment> \<open>\<^verbatim>\<open>^\s*(?:Petitioner|Appellant)(?:\(s\))?\s*[:\-]\s*(.+?)$\<close>\<close>
  "re_appellant_line =
     Seqs [Bol, Star Sp, Strs [''Petitioner'', ''Appellant''], re_label_sep,
           Grp 1 (LazyPlus Dot), Eol]"

definition re_respondent_line :: regex where
  \<comment> \<open>\<^verbatim>\<open>^\s*Respondent(?:\(s\))?\s*[:\-]\s*(.+?)$\<close>\<close>
  "re_respondent_line =
     Seqs [Bol, Star Sp, Str ''Respondent'', re_label_sep, Grp 1 (LazyPlus Dot), Eol]"

definition re_appellant_block :: regex where
  \<comment> \<open>\<^verbatim>\<open>(?:Petitioner|Appellant)(?:\(s\))?\s*[:\-]\s*((?:.|\n)*?)(?=\n\s*(?:Respondent|v\.|CORAM|Date|Advocate|$))\<close>\<close>
  "re_appellant_block =
     Seqs [Strs [''Petitioner'', ''Appellant''], re_label_sep,
           Grp 1 (LazyStar (Alt Dot (Chr newline))),
           Look (Seqs [Chr newline, Star Sp,
                       Alts [Str ''Respondent'', Str ''v.'', Str ''CORAM'', Str ''Date'',
                             Str ''Advocate'', Eol]])]"

definition re_respondent_block :: regex where
  \<comment> \<open>\<^verbatim>\<open>Respondent(?:\(s\))?\s*[:\-]\s*((?:.|\n)*?)(?=\n\s*(?:CORAM|Date|Advocate|Appearances|$))\<close>\<close>
  "re_respondent_block =
     Seqs [Str ''Respondent'', re_label_sep,
           Grp 1 (LazyStar (Alt Dot (Chr newline))),
           Look (Seqs [Chr newline, Star Sp,
                       Alts [Str ''CORAM'', Str ''Date'', Str ''Advocate'', Str ''Appearances'',
                             Eol]])]"

definition group_text :: "caps \<Rightarrow> nat \<Rightarrow> string" where
  \<comment> \<open>\<^verbatim>\<open>m.group(k)\<close> of a group that took part in the match\<close>
  "group_text cs k = (case group cs k of Some t \<Rightarrow> t | None \<Rightarrow> [])"

definition group1 :: "flags \<Rightarrow> regex \<Rightarrow> string \<Rightarrow> string option" where
  \<comment> \<open>\<^verbatim>\<open>m.group(1).strip()\<close> of \<^verbatim>\<open>re.search\<close>, None without a match\<close>
  "group1 fl r s =
     (case re_search fl r s of
        None \<Rightarrow> None
      | Some (gap, m, rest, cs) \<Rightarrow> Some (strip (group_text cs 1)))"

definition versus_names :: "string \<Rightarrow> string list \<times> string list" where
  \<comment> \<open>strategy 1: the names on both sides of a line that reads VERSUS\<close>
  "versus_names header_text =
     (case re_search fIM re_versus_block header_text of
        None \<Rightarrow> ([], [])
      | Some (gap, m, rest, cs) \<Rightarrow>
          (extract_names_from_block (strip (group_text cs 1)),
           extract_names_from_block (strip (group_text cs 2))))"

definition inline_names :: "string \<Rightarrow> (string \<times> string) option" where
  \<comment> \<open>strategy 2: the two sides of \<^verbatim>\<open>Name v. Name\<close>, when both are at least 3 long\<close>
  "inline_names header_text =
     (case re_search fI re_inline_versus header_text of
        None \<Rightarrow> None
      | Some (gap, m, rest, cs) \<Rightarrow>
          (let left = clean_party_chunk (strip (group_text cs 1));
               right = clean_party_chunk (strip (group_text cs 2))
           in if left \<noteq> [] \<and> right \<noteq> [] \<and> 3 \<le> length left \<and> 3 \<le> length right
              then Some (left, right) else None))"

definition labelled_names :: "string \<Rightarrow> string list \<times> string list \<Rightarrow> string list \<times> string list" where
  \<comment> \<open>strategies 3 and 4, from the lists that strategy 1 left\<close>
  "labelled_names header_text ar =
     (let appellants = (case group1 fIM re_appellant_line header_text of
                          Some block \<Rightarrow> extract_names_from_block block
                        | None \<Rightarrow> fst ar);
          respondents = (case group1 fIM re_respondent_line header_text of
                           Some block \<Rightarrow> extract_names_from_block block
                         | None \<Rightarrow> snd ar);
          appellants = (if appellants = [] then
                          (case group1 fI re_appellant_block header_text of
                             Some block \<Rightarrow> extract_names_from_block block
                           | None \<Rightarrow> appellants)
                        else appellants);
          respondents = (if respondents = [] then
                           (case group1 fI re_respondent_block header_text of
                              Some block \<Rightarrow> extract_names_from_block block
                            | None \<Rightarrow> respondents)
                         else respondents)
      in (take 5 appellants, take 3 respondents))"

definition extract_parties :: "string \<Rightarrow> string list \<times> string list" where
  \<comment> \<open>the argument \<^verbatim>\<open>entities\<close> is not read by the source\<close>
  "extract_parties header_text =
     (if header_text = [] then ([], [])
      else
        let ar = versus_names header_text
        in if fst ar \<noteq> [] \<and> snd ar \<noteq> [] then ar
           else
             (case (if fst ar = [] then inline_names header_text else None) of
                Some (left, right) \<Rightarrow> ([left], [right])
              | None \<Rightarrow> labelled_names header_text ar))"

definition six_appellants :: string where
  "six_appellants = ''ABC, DEF, GHI, JKL, MNO, PQR'' @ [newline] @ ''VERSUS'' @ [newline] @ ''STU''"

section \<open>The library behaviour used in closed examples\<close>

text \<open>
  \<open>ratio_exceeds a b\<close> follows \<^verbatim>\<open>SequenceMatcher(None, a, b).ratio() > 0.85\<close> of CPython's
  difflib: the longest matching block by the row-wise table \<^verbatim>\<open>j2len\<close> (characters of \<open>b\<close>
  that occur more than \<^verbatim>\<open>len(b) // 100 + 1\<close> times in a text of 200 characters or more are
  left out of the table, and picked up again when a block is extended), then the blocks
  to its left and to its right.  The ratio \<^verbatim>\<open>2.0 * matches / length\<close> is compared as the
  fraction it rounds: \<open>17 * length < 40 * matches\<close>.
\<close>

definition popular :: "string \<Rightarrow> char list" where
  "popular b =
     (if 200 \<le> length b
      then filter (\<lambda>c. length b div 100 + 1 < count_list b c) (first_occ b) else [])"

definition next_row :: "string \<Rightarrow> char list \<Rightarrow> nat \<Rightarrow> nat \<Rightarrow> char \<Rightarrow> nat list \<Rightarrow> nat list" where
  \<comment> \<open>\<^verbatim>\<open>newj2len\<close> from \<^verbatim>\<open>j2len\<close>, as the list of its values at \<open>j = 0, 1, ...\<close> (0 for no entry)\<close>
  "next_row b pop blo bhi x row =
     map (\<lambda>(j, c, prev). if blo \<le> j \<and> j < bhi \<and> c = x \<and> c \<notin> set pop then prev + 1 else 0)
       (zip [0..<length b] (zip b (0 # row)))"

definition update_best :: "nat \<Rightarrow> nat list \<Rightarrow> nat \<times> nat \<times> nat \<Rightarrow> nat \<times> nat \<times> nat" where
  \<comment> \<open>\<^verbatim>\<open>if k > bestsize: besti, bestj, bestsize = i-k+1, j-k+1, k\<close> for \<open>j\<close> in rising order\<close>
  "update_best i row best =
     fold (\<lambda>(j, k) (bi, bj, bs). if bs < k then (Suc i - k, Suc j - k, k) else (bi, bj, bs))
       (zip [0..<length row] row) best"

definition longest_in_table :: "string \<Rightarrow> string \<Rightarrow> nat \<Rightarrow> nat \<Rightarrow> nat \<Rightarrow> nat \<Rightarrow> nat \<times> nat \<times> nat" where
  "longest_in_table a b alo ahi blo bhi =
     snd (fold (\<lambda>(i, x) (row, best).
                  let row' = next_row b (popular b) blo bhi x row in (row', update_best i row' best))
            (drop alo (take ahi (zip [0..<length a] a)))
            (replicate (length b) 0, (alo, blo, 0)))"

fun extend_back :: "string \<Rightarrow> string \<Rightarrow> nat \<Rightarrow> nat \<Rightarrow> nat \<Rightarrow> nat \<Rightarrow> nat \<Rightarrow> nat \<times> nat \<times> nat" where
  "extend_back a b alo blo 0 bj bs = (0, bj, bs)"
| "extend_back a b alo blo (Suc i) bj bs =
     (if alo < Suc i \<and> blo < bj \<and> a ! i = b ! (bj - 1)
      then extend_back a b alo blo i (bj - 1) (Suc bs) else (Suc i, bj, bs))"

function extend_forward :: "string \<Rightarrow> string \<Rightarrow> nat \<Rightarrow> nat \<Rightarrow> nat \<Rightarrow> nat \<Rightarrow> nat \<Rightarrow> nat" where
  "extend_forward a b ahi bhi bi bj bs =
     (if bi + bs < ahi \<and> bj + bs < bhi \<and> a ! (bi + bs) = b ! (bj + bs)
      then extend_forward a b ahi bhi bi bj (Suc bs) else bs)"
  by pat_completeness auto

termination extend_forward
  by (relation "measure (\<lambda>(a, b, ahi, bhi, bi, bj, bs). ahi - (bi + bs))") auto

definition find_longest_match :: "string \<Rightarrow> string \<Rightarrow> nat \<Rightarrow> nat \<Rightarrow> nat \<Rightarrow> nat \<Rightarrow> nat \<times> nat \<times> nat" where
  "find_longest_match a b alo ahi blo bhi =
     (case longest_in_table a b alo ahi blo bhi of
        (bi, bj, bs) \<Rightarrow>
          (case extend_back a b alo blo bi bj bs of
             (bi, bj, bs) \<Rightarrow> (bi, bj, extend_forward a b ahi bhi bi bj bs)))"

fun matching_total :: "nat \<Rightarrow> string \<Rightarrow> string \<Rightarrow> nat \<Rightarrow> nat \<Rightarrow> nat \<Rightarrow> nat \<Rightarrow> nat" where
  \<comment> \<open>the sum of the sizes of \<^verbatim>\<open>get_matching_blocks()\<close>; a block found is not empty and
      the ranges to its left and right are shorter, so \<open>length a + 1\<close> levels are enough\<close>
  "matching_total 0 a b alo ahi blo bhi = 0"
| "matching_total (Suc n) a b alo ahi blo bhi =
     (case find_longest_match a b alo ahi blo bhi of
        (i, j, k) \<Rightarrow>
          if k = 0 then 0
          else k + (if alo < i \<and> blo < j then matching_total n a b alo i blo j else 0)
                 + (if i + k < ahi \<and> j + k < bhi then matching_total n a b (i + k) ahi (j + k) bhi
                    else 0))"

definition ratio_exceeds :: "string \<Rightarrow> string \<Rightarrow> bool" where
  "ratio_exceeds a b =
     (let matches = matching_total (Suc (length a)) a b 0 (length a) 0 (length b);
          total = length a + length b
      in if total = 0 then True else 17 * total < 40 * matches)"

definition insertion_order :: "string list \<Rightarrow> string list" where
  \<comment> \<open>one possible iteration order of a set: the order of insertion\<close>
  "insertion_order xs = xs"

section \<open>Properties of the fusion engine\<close>

lemma first_occ_set [simp]: "set (first_occ xs) = set xs"
  by (induction xs) auto

lemma first_occ_distinct [simp]: "distinct (first_occ xs)"
  by (induction xs) auto

lemma first_occ_filter: "first_occ (filter P xs) = filter P (first_occ xs)"
proof (induction xs)
  case Nil
  then show ?case by simp
next
  case (Cons x xs)
  have "filter P (filter (\<lambda>y. y \<noteq> x) (first_occ xs)) = filter (\<lambda>y. y \<noteq> x) (filter P (first_occ xs))"
    by (simp add: conj_commute)
  moreover have "\<not> P x \<Longrightarrow> filter (\<lambda>y. y \<noteq> x) (filter P (first_occ xs)) = filter P (first_occ xs)"
    by (rule filter_True) auto
  ultimately show ?case using Cons by simp
qed

lemma first_occ_append:
  "first_occ (xs @ ys) = first_occ xs @ filter (\<lambda>y. y \<notin> set xs) (first_occ ys)"
proof (induction xs)
  case Nil
  then show ?case by simp
next
  case (Cons x xs)
  have "filter (\<lambda>y. y \<noteq> x) (filter (\<lambda>y. y \<notin> set xs) (first_occ ys))
        = filter (\<lambda>y. y \<notin> set (x # xs)) (first_occ ys)"
    by (auto intro: filter_cong)
  with Cons show ?case by simp
qed

lemma first_occ_map_aux:
  "filter (\<lambda>y. y \<noteq> f x) (map f (filter (\<lambda>y. y \<noteq> x) zs)) = filter (\<lambda>y. y \<noteq> f x) (map f zs)"
  by (induction zs) auto

lemma first_occ_map: "first_occ (map f xs) = first_occ (map f (first_occ xs))"
proof (induction xs)
  case Nil
  then show ?case by simp
next
  case (Cons x xs)
  have "first_occ (map f (first_occ (x # xs)))
        = f x # filter (\<lambda>y. y \<noteq> f x) (first_occ (map f (filter (\<lambda>y. y \<noteq> x) (first_occ xs))))"
    by simp
  also have "filter (\<lambda>y. y \<noteq> f x) (first_occ (map f (filter (\<lambda>y. y \<noteq> x) (first_occ xs))))
        = first_occ (filter (\<lambda>y. y \<noteq> f x) (map f (filter (\<lambda>y. y \<noteq> x) (first_occ xs))))"
    by (simp add: first_occ_filter)
  also have "\<dots> = first_occ (filter (\<lambda>y. y \<noteq> f x) (map f (first_occ xs)))"
    by (simp add: first_occ_map_aux)
  also have "\<dots> = filter (\<lambda>y. y \<noteq> f x) (first_occ (map f (first_occ xs)))"
    by (simp add: first_occ_filter)
  finally show ?case using Cons by simp
qed

text \<open>Two lists with the same elements in the same order of first occurrence.\<close>

definition same_firsts :: "'a list \<Rightarrow> 'a list \<Rightarrow> bool" where
  "same_firsts xs ys = (first_occ xs = first_occ ys)"

lemma same_firsts_set: "same_firsts xs ys \<Longrightarrow> set xs = set ys"
  unfolding same_firsts_def by (metis first_occ_set)

lemma same_firsts_map: "same_firsts xs ys \<Longrightarrow> same_firsts (map f xs) (map f ys)"
  unfolding same_firsts_def by (metis first_occ_map)

lemma same_firsts_filter: "same_firsts xs ys \<Longrightarrow> same_firsts (filter P xs) (filter P ys)"
  unfolding same_firsts_def by (simp add: first_occ_filter)

lemma same_firsts_append:
  "same_firsts xs xs' \<Longrightarrow> same_firsts ys ys' \<Longrightarrow> same_firsts (xs @ ys) (xs' @ ys')"
  using same_firsts_set [of xs xs'] unfolding same_firsts_def by (simp add: first_occ_append)

lemma same_firsts_map_filter:
  "same_firsts xs ys \<Longrightarrow> same_firsts (List.map_filter f xs) (List.map_filter f ys)"
  unfolding List.map_filter_def by (intro same_firsts_map same_firsts_filter)

lemma same_firsts_nil: "same_firsts xs ys \<Longrightarrow> (xs = []) = (ys = [])"
  using same_firsts_set [of xs ys] by auto

lemma same_firsts_twice: "same_firsts (xs @ xs) xs"
  unfolding same_firsts_def first_occ_append by (simp add: )

lemma first_occ_twice_each: "first_occ (concat (map (\<lambda>x. [x, x]) xs)) = first_occ xs"
  by (induction xs) (auto simp: first_occ_filter)

lemma clean_loop_skip:
  "clean_value key x = None \<or> (\<exists>v2. clean_value key x = Some v2 \<and> lower v2 \<in> seen) \<Longrightarrow>
   clean_loop key seen (filter (\<lambda>y. y \<noteq> x) zs) = clean_loop key seen zs"
proof (induction zs arbitrary: seen)
  case Nil
  then show ?case by simp
next
  case (Cons z zs)
  show ?case
  proof (cases "z = x")
    case True
    with Cons show ?thesis by auto
  next
    case False
    have "clean_loop key (insert a seen) (filter (\<lambda>y. y \<noteq> x) zs) = clean_loop key (insert a seen) zs" for a
      by (rule Cons.IH) (use Cons.prems in auto)
    with False Cons show ?thesis by (auto split: option.splits)
  qed
qed

lemma clean_loop_first_occ: "clean_loop key seen (first_occ xs) = clean_loop key seen xs"
proof (induction xs arbitrary: seen)
  case Nil
  then show ?case by simp
next
  case (Cons x xs)
  show ?case
  proof (cases "clean_value key x")
    case None
    then show ?thesis using Cons clean_loop_skip [of key x seen "first_occ xs"] by simp
  next
    case (Some v2)
    show ?thesis
    proof (cases "lower v2 \<in> seen")
      case True
      then show ?thesis using Some Cons clean_loop_skip [of key x seen "first_occ xs"] by simp
    next
      case False
      then show ?thesis
        using Some Cons clean_loop_skip [of key x "insert (lower v2) seen" "first_occ xs"] by simp
    qed
  qed
qed

lemma clean_loop_same_firsts:
  "same_firsts xs ys \<Longrightarrow> clean_loop key seen xs = clean_loop key seen ys"
  unfolding same_firsts_def by (metis clean_loop_first_occ)

lemma clean_loop_append:
  "clean_loop key seen (xs @ ys) =
   clean_loop key seen xs @ clean_loop key (seen \<union> lower ` set (clean_loop key seen xs)) ys"
proof (induction xs arbitrary: seen)
  case Nil
  then show ?case by simp
next
  case (Cons x xs)
  show ?case
    by (cases "clean_value key x") (simp_all add: Cons)
qed


lemma combined_same_firsts: "same_firsts xs ys \<Longrightarrow> same_firsts (combined xs) (combined ys)"
  unfolding combined_def header_vals_def bert_vals_def spacy_vals_def
  by (intro same_firsts_append same_firsts_map same_firsts_filter)

lemma deduplicate_precedents_same_firsts:
  "same_firsts xs ys \<Longrightarrow> deduplicate_precedents sim ord xs = deduplicate_precedents sim ord ys"
  using same_firsts_nil [of xs ys]
  by (simp add: deduplicate_precedents_def precedents_sorted_def set_iter_def same_firsts_def)

lemma fuse_same_firsts:
  assumes "same_firsts xs ys"
  shows "fuse sim ord key xs = fuse sim ord key ys"
proof -
  have c: "same_firsts (combined xs) (combined ys)"
    using assms by (rule combined_same_firsts)
  show ?thesis
    unfolding fuse_def
    using c deduplicate_precedents_same_firsts [OF c] clean_loop_same_firsts [OF c]
    by simp
qed

lemma accum_same_firsts:
  "same_firsts b b' \<Longrightarrow> same_firsts s s' \<Longrightarrow> same_firsts (accum b s) (accum b' s')"
  unfolding accum_def by (intro same_firsts_append same_firsts_map_filter)

lemma merge_same_firsts:
  assumes "same_firsts b b'" and "same_firsts s s'"
  shows "merge_entities sim ord b s = merge_entities sim ord b' s'"
proof -
  have a: "same_firsts (accum b s) (accum b' s')"
    using assms by (rule accum_same_firsts)
  have st: "set (accum b s) = set (accum b' s')"
    using a by (rule same_firsts_set)
  have "fuse sim ord key (items_of key (accum b s)) = fuse sim ord key (items_of key (accum b' s'))" for key
    unfolding items_of_def
    by (intro fuse_same_firsts same_firsts_map same_firsts_filter a)
  then have "fused sim ord (accum b s) = fused sim ord (accum b' s')"
    unfolding fused_def using st by auto
  then show ?thesis
    unfolding merge_entities_def by simp
qed

text \<open>
  Claim C7 (fusion idempotence).  Supplying every candidate twice, either by merging the
  two input lists with themselves or by repeating each candidate in place, gives the same
  fused output for every key as a single merge: the cleaning loop keeps first occurrences
  only, and the precedent deduplication starts from the set of the candidates.
\<close>

theorem merge_idempotent:
  "merge_entities sim ord (b @ b) (s @ s) = merge_entities sim ord b s \<and>
   merge_entities sim ord (concat (map (\<lambda>x. [x, x]) b)) (concat (map (\<lambda>x. [x, x]) s))
     = merge_entities sim ord b s"
  by (intro conjI merge_same_firsts)
     (simp_all add: same_firsts_def first_occ_twice_each first_occ_append)


lemma with_extras_expected: "k \<in> set expected \<Longrightarrow> with_extras m k = m k"
  by (auto simp: with_extras_def expected_def Let_def)

lemma items_of_absent: "key \<notin> fst ` set acc \<Longrightarrow> items_of key acc = []"
  by (auto simp: items_of_def filter_empty_conv)

lemma fuse_nil: "fuse sim ord key [] = []"
  by (simp add: fuse_def combined_def header_vals_def bert_vals_def spacy_vals_def
      deduplicate_precedents_def)

lemma fused_expected:
  "key \<in> set expected \<Longrightarrow>
   with_extras (with_expected (fused sim ord acc)) key = Some (fuse sim ord key (items_of key acc))"
  by (simp add: with_extras_expected with_expected_def fused_def items_of_absent fuse_nil)

lemma add_party_key:
  assumes "m key = Some xs" and "get_list m k = []"
  shows "\<exists>extra. add_party k p m key = Some (xs @ extra) \<and> (extra = [] \<or> (xs = [] \<and> key = k))"
proof (cases "key = k")
  case True
  with assms have "xs = []" by (simp add: get_list_def)
  with True assms show ?thesis by (cases p) (simp_all add: add_party_def)
next
  case False
  with assms show ?thesis by (cases p) (simp_all add: add_party_def)
qed

lemma add_party_other: "k' \<noteq> k \<Longrightarrow> get_list (add_party k p m) k' = get_list m k'"
  by (cases p) (simp_all add: add_party_def get_list_def)

lemma with_inferred_parties_key:
  assumes "m key = Some xs"
  shows "\<exists>extra. with_inferred_parties m key = Some (xs @ extra) \<and>
           (extra = [] \<or> (xs = [] \<and> key \<in> {''petitioner'', ''respondent''}))"
proof (cases "get_list m ''petitioner'' = [] \<and> get_list m ''respondent'' = []")
  case False
  then show ?thesis using assms by (auto simp: with_inferred_parties_def)
next
  case True
  obtain pet resp where pr:
    "infer_parties_from_case_name (case get_list m ''case_name'' of [] \<Rightarrow> [] | c # _ \<Rightarrow> c) = (pet, resp)"
    by (cases "infer_parties_from_case_name (case get_list m ''case_name'' of [] \<Rightarrow> [] | c # _ \<Rightarrow> c)")
  let ?m1 = "add_party ''petitioner'' pet m"
  have "get_list m ''petitioner'' = []" using True by simp
  from add_party_key [where m = m and key = key and xs = xs and k = "''petitioner''" and p = pet,
      OF assms this]
  obtain e1 where e1: "?m1 key = Some (xs @ e1)" "e1 = [] \<or> (xs = [] \<and> key = ''petitioner'')"
    by blast
  have g: "get_list ?m1 ''respondent'' = []"
    using True by (simp add: add_party_other)
  from add_party_key [where m = "?m1" and key = key and xs = "xs @ e1"
      and k = "''respondent''" and p = resp, OF e1(1) g]
  obtain e2 where e2: "add_party ''respondent'' resp ?m1 key = Some ((xs @ e1) @ e2)"
    "e2 = [] \<or> (xs @ e1 = [] \<and> key = ''respondent'')"
    by blast
  have w: "with_inferred_parties m key = Some (xs @ (e1 @ e2))"
    using True pr e2(1) by (simp add: with_inferred_parties_def)
  have "e1 @ e2 = [] \<or> (xs = [] \<and> key \<in> {''petitioner'', ''respondent''})"
    using e1(2) e2(2) by auto
  with w show ?thesis by blast
qed

lemma merge_entities_key:
  assumes "key \<in> set expected"
  shows "\<exists>extra. merge_entities sim ord b s key
            = Some (fuse sim ord key (items_of key (accum b s)) @ extra) \<and>
           (extra = [] \<or> (fuse sim ord key (items_of key (accum b s)) = [] \<and>
                          key \<in> {''petitioner'', ''respondent''}))"
  unfolding merge_entities_def
  by (rule with_inferred_parties_key) (rule fused_expected [OF assms])



lemma spacy_prov_eval:
  "contains ''header'' (lower ''spacy'') = False" "lower ''spacy'' \<noteq> ''bert''"
  by code_simp+

lemma spacy_item_prov: "spacy_item e = Some (k, v, p) \<Longrightarrow> p = ''spacy''"
  by (cases e) (auto simp: spacy_item_def Let_def split: if_splits)

lemma rule_items_prov:
  assumes "(v, p) \<in> set (items_of key (List.map_filter spacy_item s))"
  shows "p = ''spacy''"
proof -
  from assms obtain k where "(k, v, p) \<in> set (List.map_filter spacy_item s)"
    by (auto simp: items_of_def)
  then obtain e where "spacy_item e = Some (k, v, p)"
    by (auto simp: List.map_filter_def)
  then show ?thesis by (rule spacy_item_prov)
qed

lemma rule_items_buckets:
  fixes s key
  defines "ri \<equiv> items_of key (List.map_filter spacy_item s)"
  shows "header_vals ri = []" and "bert_vals ri = []" and "spacy_vals ri = map fst ri"
proof -
  have p: "\<And>v p. (v, p) \<in> set ri \<Longrightarrow> p = ''spacy''"
    unfolding ri_def by (rule rule_items_prov)
  show "header_vals ri = []"
    unfolding header_vals_def using p spacy_prov_eval by (auto simp: filter_empty_conv)
  show "bert_vals ri = []"
    unfolding bert_vals_def using p spacy_prov_eval by (auto simp: filter_empty_conv)
  have "filter (\<lambda>(v, prov). \<not> contains ''header'' (lower prov) \<and> lower prov \<noteq> ''bert'') ri = ri"
    by (rule filter_True) (use p spacy_prov_eval in auto)
  then show "spacy_vals ri = map fst ri"
    unfolding spacy_vals_def by simp
qed

lemma items_of_append: "items_of key (xs @ ys) = items_of key xs @ items_of key ys"
  by (simp add: items_of_def)

lemma combined_accum:
  "combined (items_of key (accum b s)) =
     header_vals (items_of key (List.map_filter bert_item b)) @
     (bert_vals (items_of key (List.map_filter bert_item b)) @
      spacy_vals (items_of key (List.map_filter bert_item b))) @
     map fst (items_of key (List.map_filter spacy_item s))"
proof -
  have h: "header_vals (xs @ ys) = header_vals xs @ header_vals ys"
    and b: "bert_vals (xs @ ys) = bert_vals xs @ bert_vals ys"
    and sp: "spacy_vals (xs @ ys) = spacy_vals xs @ spacy_vals ys" for xs ys
    by (simp_all add: header_vals_def bert_vals_def spacy_vals_def)
  show ?thesis
    by (simp add: combined_def accum_def items_of_append h b sp rule_items_buckets)
qed

text \<open>
  Claim C3 (provenance priority), as amended.  For every label key but \<open>precedent\<close>, the
  fused list is made of the surviving header-tagged model candidates in discovery order,
  then the surviving other model candidates (untagged ones, then body-tagged ones) that
  are not already present, then the surviving rule candidates that are not already
  present.  Only the party fallback can add to it, and only to an empty list.
\<close>

theorem fusion_priority_order:
  assumes "key \<in> set expected" and "key \<noteq> ''precedent''"
  shows "let mi = items_of key (List.map_filter bert_item b);
             ri = items_of key (List.map_filter spacy_item s);
             hs = clean_loop key {} (header_vals mi);
             ms = clean_loop key (lower ` set hs) (bert_vals mi @ spacy_vals mi);
             rs = clean_loop key (lower ` set (hs @ ms)) (map fst ri)
         in \<exists>extra. merge_entities sim ord b s key = Some (hs @ ms @ rs @ extra) \<and>
              (extra = [] \<or> (hs @ ms @ rs = [] \<and> key \<in> {''petitioner'', ''respondent''}))"
proof -
  have "fuse sim ord key (items_of key (accum b s)) = clean_loop key {} (combined (items_of key (accum b s)))"
    using assms(2) by (simp add: fuse_def)
  also have "\<dots> =
      clean_loop key {} (header_vals (items_of key (List.map_filter bert_item b))) @
      clean_loop key (lower ` set (clean_loop key {} (header_vals (items_of key (List.map_filter bert_item b)))))
        (bert_vals (items_of key (List.map_filter bert_item b)) @
         spacy_vals (items_of key (List.map_filter bert_item b))) @
      clean_loop key
        (lower ` set (clean_loop key {} (header_vals (items_of key (List.map_filter bert_item b))) @
           clean_loop key (lower ` set (clean_loop key {} (header_vals (items_of key (List.map_filter bert_item b)))))
             (bert_vals (items_of key (List.map_filter bert_item b)) @
              spacy_vals (items_of key (List.map_filter bert_item b)))))
        (map fst (items_of key (List.map_filter spacy_item s)))"
    unfolding combined_accum
    by (simp only: clean_loop_append [of key _ "header_vals _"] clean_loop_append [of key _ "_ @ _" "map fst _"]
        Un_empty_left set_append image_Un)
  finally have f: "fuse sim ord key (items_of key (accum b s)) = \<dots>" .
  from merge_entities_key [OF assms(1), of sim ord b s]
  show ?thesis unfolding f Let_def by (simp only: append_assoc)
qed


lemma dedup_loop_acc: "dedup_loop sim U S ps = U @ dedup_loop sim [] S ps"
proof (induction ps arbitrary: U S)
  case Nil
  then show ?case by simp
next
  case (Cons p ps)
  have k: "dedup_loop sim (U @ [p]) S' ps = U @ dedup_loop sim [p] S' ps" for S'
    using Cons [of "U @ [p]" S'] Cons [of "[p]" S'] by simp
  show ?case
    using Cons [of U S] k by (simp add: Let_def)
qed

lemma dedup_loop_Cons:
  "dedup_loop sim [] S (p # ps) =
     (if length (base_name p) < 10 then dedup_loop sim [] S ps
      else if list_ex (\<lambda>s. sim (lower (base_name p)) s) S then dedup_loop sim [] S ps
      else p # dedup_loop sim [] (S @ [lower (base_name p)]) ps)"
  using dedup_loop_acc [of sim "[p]" "S @ [lower (base_name p)]" ps]
  by (simp add: Let_def)

declare dedup_loop.simps(2) [simp del]

lemma dedup_loop_subset: "set (dedup_loop sim [] S ps) \<subseteq> set ps"
  by (induction ps arbitrary: S) (auto simp: dedup_loop_Cons)

lemma dedup_loop_base:
  "p \<in> set (dedup_loop sim [] S ps) \<Longrightarrow> 10 \<le> length (base_name p)"
  by (induction ps arbitrary: S) (auto simp: dedup_loop_Cons split: if_splits)



lemma precedents_sorted_set:
  "valid_iteration ord \<Longrightarrow> set (precedents_sorted ord ps) = set ps"
  by (simp add: precedents_sorted_def set_iter_def valid_iteration_def)









lemma valid_insertion_order: "valid_iteration insertion_order"
  by (simp add: valid_iteration_def insertion_order_def)



theorem priority_order_counterexample:
  "merge_entities ratio_exceeds insertion_order
     [(''PRECEDENT'', ''State v. Ram Kumar [header]'')]
     [(''PRECEDENT'', ''Union of India v. Ram'')] ''precedent''
   = Some [''Union of India v. Ram'', ''State v. Ram Kumar'']"
  by code_simp

theorem short_base_counterexample:
  "get_list (merge_entities ratio_exceeds insertion_order []
       [(''PRECEDENT'', ''......A v. B (2020) 1 SCC 1'')]) ''precedent''
     = [''A v. B (2020) 1 SCC 1''] \<and>
   base_name ''A v. B (2020) 1 SCC 1'' = ''A v. B''"
  by code_simp


lemma deduplicate_precedents_base:
  "p \<in> set (deduplicate_precedents sim ord ps) \<Longrightarrow> 10 \<le> length (base_name p)"
  by (auto simp: deduplicate_precedents_def split: if_splits dest: in_set_takeD dedup_loop_base)

lemma deduplicate_precedents_subset:
  "valid_iteration ord \<Longrightarrow> set (deduplicate_precedents sim ord ps) \<subseteq> set ps"
  using dedup_loop_subset [of sim "[]" "precedents_sorted ord ps"]
  by (auto simp: deduplicate_precedents_def precedents_sorted_set dest: in_set_takeD)

lemma deduplicate_precedents_short:
  assumes "valid_iteration ord" and "length (base_name p) < 10"
  shows "deduplicate_precedents sim ord [p] = []"
proof -
  have "q \<notin> set (deduplicate_precedents sim ord [p])" for q
    using deduplicate_precedents_subset [OF assms(1), of sim "[p]"]
      deduplicate_precedents_base [of q sim ord "[p]"] assms(2) by auto
  then show ?thesis by (meson last_in_set)
qed

lemma clean_loop_source:
  "q \<in> set (clean_loop key seen xs) \<Longrightarrow> \<exists>v\<in>set xs. clean_value key v = Some q"
  by (induction xs arbitrary: seen) (auto split: option.splits if_splits)

lemma clean_value_precedent:
  "clean_value ''precedent'' v = Some q \<Longrightarrow> q = strip_chars ''.,;:'' (strip v)"
  by (auto simp: clean_value_def Let_def split: if_splits)

lemma merge_entities_precedent:
  "get_list (merge_entities sim ord b s) ''precedent''
     = clean_loop ''precedent'' {}
         (deduplicate_precedents sim ord (combined (items_of ''precedent'' (accum b s))))"
proof -
  have "''precedent'' \<in> set expected" by (simp add: expected_def)
  from merge_entities_key [OF this, of sim ord b s]
  show ?thesis by (auto simp: get_list_def fuse_def)
qed

text \<open>
  Claim C10 (short base names), as amended.  A candidate whose base name has fewer than
  10 characters never survives the precedent deduplication, also when it is the only
  candidate.  Every precedent in the fused output is the trimmed form (surrounding white
  space, then surrounding full stops, commas, semicolons and colons removed) of a
  candidate whose base name has at least 10 characters.
\<close>

theorem short_base_precedents_discarded:
  assumes "valid_iteration ord"
  shows "(\<forall>p. length (base_name p) < 10 \<longrightarrow>
            p \<notin> set (deduplicate_precedents sim ord ps) \<and>
            deduplicate_precedents sim ord [p] = []) \<and>
         (\<forall>q\<in>set (get_list (merge_entities sim ord b s) ''precedent'').
            \<exists>v\<in>set (combined (items_of ''precedent'' (accum b s))).
               10 \<le> length (base_name v) \<and> q = strip_chars ''.,;:'' (strip v))"
proof (intro conjI allI impI ballI)
  fix p assume "length (base_name p) < 10"
  then show "p \<notin> set (deduplicate_precedents sim ord ps)"
    using deduplicate_precedents_base [of p sim ord ps] by auto
next
  fix p assume "length (base_name p) < 10"
  then show "deduplicate_precedents sim ord [p] = []"
    by (rule deduplicate_precedents_short [OF assms])
next
  fix q assume "q \<in> set (get_list (merge_entities sim ord b s) ''precedent'')"
  then obtain v where v: "v \<in> set (deduplicate_precedents sim ord (combined (items_of ''precedent'' (accum b s))))"
    and c: "clean_value ''precedent'' v = Some q"
    unfolding merge_entities_precedent by (blast dest: clean_loop_source)
  from v have "v \<in> set (combined (items_of ''precedent'' (accum b s)))"
    using deduplicate_precedents_subset [OF assms] by blast
  moreover from v have "10 \<le> length (base_name v)"
    by (rule deduplicate_precedents_base)
  moreover from c have "q = strip_chars ''.,;:'' (strip v)"
    by (rule clean_value_precedent)
  ultimately show "\<exists>v\<in>set (combined (items_of ''precedent'' (accum b s))).
      10 \<le> length (base_name v) \<and> q = strip_chars ''.,;:'' (strip v)"
    by blast
qed

theorem short_base_precedents_discarded_witness:
  "valid_iteration insertion_order \<and> length (base_name ''Re: X'') < 10 \<and>
   deduplicate_precedents ratio_exceeds insertion_order [''Re: X''] = []"
proof -
  have b: "length (base_name ''Re: X'') < 10"
    by code_simp
  from short_base_precedents_discarded [OF valid_insertion_order, of ratio_exceeds "[]" "[]" "[]"] b
  have "deduplicate_precedents ratio_exceeds insertion_order [''Re: X''] = []"
    by blast
  with b valid_insertion_order show ?thesis by blast
qed

theorem fusion_priority_order_witness:
  "''court'' \<in> set expected \<and> ''court'' \<noteq> ''precedent'' \<and>
   merge_entities ratio_exceeds insertion_order
     [(''COURT'', ''Supreme Court [header]'')] [(''COURT'', ''High Court'')] ''court''
   = Some [''Supreme Court'', ''High Court'']"
proof -
  have e: "''court'' \<in> set expected" by (simp add: expected_def)
  have n: "''court'' \<noteq> ''precedent''" by simp
  have mi: "items_of ''court'' (List.map_filter bert_item [(''COURT'', ''Supreme Court [header]'')])
            = [(''Supreme Court'', ''header'')]"
    by code_simp
  have ri: "items_of ''court'' (List.map_filter spacy_item [(''COURT'', ''High Court'')])
            = [(''High Court'', ''spacy'')]"
    by code_simp
  have hs: "clean_loop ''court'' {} (header_vals [(''Supreme Court'', ''header'')]) = [''Supreme Court'']"
    by code_simp
  have ms: "clean_loop ''court'' (lower ` set [''Supreme Court''])
              (bert_vals [(''Supreme Court'', ''header'')] @ spacy_vals [(''Supreme Court'', ''header'')]) = []"
    by code_simp
  have rs: "clean_loop ''court'' (lower ` set ([''Supreme Court''] @ []))
              (map fst [(''High Court'', ''spacy'')]) = [''High Court'']"
    by code_simp
  from fusion_priority_order [OF e n, of "[(''COURT'', ''Supreme Court [header]'')]"
      "[(''COURT'', ''High Court'')]" ratio_exceeds insertion_order]
  have "merge_entities ratio_exceeds insertion_order
     [(''COURT'', ''Supreme Court [header]'')] [(''COURT'', ''High Court'')] ''court''
   = Some [''Supreme Court'', ''High Court'']"
    unfolding Let_def mi ri hs ms rs by auto
  with e n show ?thesis by blast
qed


section \<open>Properties of the date selector\<close>

















section \<open>Properties of the segmenter\<close>

lemma strip_space_prefix: "all_space w \<Longrightarrow> strip (w @ x) = strip x"
proof -
  assume "all_space w"
  then have "dropWhile (\<lambda>c. c \<in> set space_chars) (w @ x) = dropWhile (\<lambda>c. c \<in> set space_chars) x"
    by (intro dropWhile_append2) (auto simp: all_space_def is_space_def)
  then show ?thesis by (simp add: strip_def strip_chars_def)
qed

lemma rev_split: "rev (dropWhile P (rev xs)) @ rev (takeWhile P (rev xs)) = xs"
  by (simp only: rev_append [symmetric] takeWhile_dropWhile_id rev_rev_ident)

lemma strip_all_space: "all_space w \<Longrightarrow> strip w = []"
proof -
  assume "all_space w"
  then have "\<forall>c\<in>set w. c \<in> set space_chars"
    by (simp add: all_space_def is_space_def)
  then have d: "dropWhile (\<lambda>c. c \<in> set space_chars) w = []"
    by (simp only: dropWhile_eq_Nil_conv)
  show ?thesis unfolding strip_def strip_chars_def d by simp
qed

lemma strip_space_suffix: "all_space w \<Longrightarrow> strip (x @ w) = strip x"
proof -
  assume w: "all_space w"
  let ?P = "\<lambda>c. c \<in> set space_chars"
  have r: "dropWhile ?P (rev w @ ys) = dropWhile ?P ys" for ys
    by (rule dropWhile_append2) (use w in \<open>auto simp: all_space_def is_space_def\<close>)
  show ?thesis
  proof (cases "\<forall>c\<in>set x. ?P c")
    case True
    then have "all_space x" "all_space (x @ w)"
      using w by (auto simp: all_space_def is_space_def)
    then show ?thesis by (simp add: strip_all_space)
  next
    case False
    then obtain c where "c \<in> set x" "\<not> ?P c" by blast
    then have "dropWhile ?P (x @ w) = dropWhile ?P x @ w"
      by (rule dropWhile_append1)
    then show ?thesis by (simp add: strip_def strip_chars_def r)
  qed
qed

lemma strip_decompose: "\<exists>w1 w2. all_space w1 \<and> all_space w2 \<and> s = w1 @ strip s @ w2"
proof -
  let ?P = "\<lambda>c. c \<in> set space_chars"
  let ?s1 = "dropWhile ?P s"
  let ?w2 = "rev (takeWhile ?P (rev ?s1))"
  have c: "?s1 = strip s @ ?w2"
    by (simp only: strip_def strip_chars_def rev_split)
  have "takeWhile ?P s @ ?s1 = takeWhile ?P s @ (strip s @ ?w2)"
    using c by (rule arg_cong)
  then have e: "s = takeWhile ?P s @ strip s @ ?w2"
    by (simp only: takeWhile_dropWhile_id)
  have "all_space (takeWhile ?P s)"
    by (auto simp: all_space_def is_space_def dest: set_takeWhileD)
  moreover have "all_space ?w2"
    by (auto simp: all_space_def is_space_def dest: set_takeWhileD)
  ultimately show ?thesis using e by blast
qed

lemma strip_idem: "strip (strip s) = strip s"
proof -
  obtain w1 w2 where w: "all_space w1" "all_space w2" and eq: "s = w1 @ strip s @ w2"
    using strip_decompose by blast
  from eq have "strip s = strip (w1 @ strip s @ w2)"
    by (rule arg_cong)
  also have "\<dots> = strip (strip s @ w2)"
    using w(1) by (rule strip_space_prefix)
  also have "\<dots> = strip (strip s)"
    using w(2) by (rule strip_space_suffix)
  finally show ?thesis by simp
qed

lemma strip_subset: "set (strip s) \<subseteq> set s"
proof -
  obtain w1 w2 where eq: "s = w1 @ strip s @ w2"
    using strip_decompose by blast
  from eq have "set s = set (w1 @ strip s @ w2)"
    by (rule arg_cong)
  then show ?thesis by auto
qed

lemma newline_space: "is_space newline"
  by (simp add: is_space_def space_chars_def newline_def)

lemma rstrip_newline_strip: "strip (rstrip_chars [newline] s) = strip s"
proof -
  let ?P = "\<lambda>c. c \<in> set [newline]"
  let ?w = "rev (takeWhile ?P (rev s))"
  have eq: "s = rstrip_chars [newline] s @ ?w"
    by (simp only: rstrip_chars_def rev_split)
  have "\<forall>c\<in>set ?w. c = newline"
    by (auto dest!: set_takeWhileD)
  then have "all_space ?w"
    using newline_space by (auto simp: all_space_def)
  then have b: "strip (rstrip_chars [newline] s @ ?w) = strip (rstrip_chars [newline] s)"
    by (rule strip_space_suffix)
  from eq have a: "strip s = strip (rstrip_chars [newline] s @ ?w)"
    by (rule arg_cong)
  from a b show ?thesis by (rule trans [THEN sym])
qed

lemma break_is_space: "c \<in> set line_breaks \<Longrightarrow> is_space c"
  unfolding line_breaks_def is_space_def space_chars_def by (simp, blast)

lemma nonblank_lines_nb: "nonblank_lines s = nb_from [] s"
  by (simp add: nonblank_lines_def nb_from_def splitlines_def)

lemma strip_nil [simp]: "strip [] = []"
  by (simp add: strip_def strip_chars_def)

lemma all_space_simps [simp]:
  "all_space []" "all_space (c # w) = (is_space c \<and> all_space w)"
  "all_space (u @ v) = (all_space u \<and> all_space v)"
  by (auto simp: all_space_def)

lemma cr_lf_breaks [simp]: "CHR 0x0D \<in> set line_breaks" "CHR 0x0A \<in> set line_breaks"
  by (simp_all add: line_breaks_def)

lemma newline_lf: "newline = CHR 0x0A" "newline \<noteq> CHR 0x0D" "newline \<in> set line_breaks"
  by (simp_all add: newline_def line_breaks_def)

lemma nb_from_nil: "nb_from cur [] = (if strip cur = [] then [] else [strip cur])"
  by (simp add: nb_from_def)

lemma nb_from_single:
  "nb_from cur [c] = (if c \<in> set line_breaks then nb_from cur [] else nb_from (cur @ [c]) [])"
  by (simp add: nb_from_def)

lemma nb_from_Cons2:
  "nb_from cur (c # d # cs) =
     (if c = CHR 0x0D \<and> d = CHR 0x0A then nb_from cur [] @ nb_from [] cs
      else if c \<in> set line_breaks then nb_from cur [] @ nb_from [] (d # cs)
      else nb_from (cur @ [c]) (d # cs))"
  by (simp add: nb_from_def)

lemma nb_newline_first: "nb_from cur (newline # b) = nb_from cur [] @ nb_from [] b"
proof (cases b)
  case Nil
  then show ?thesis by (simp add: nb_from_single newline_lf nb_from_nil)
next
  case (Cons d ds)
  then show ?thesis by (simp add: nb_from_Cons2 newline_lf)
qed

lemma nb_prefix: "all_space w \<Longrightarrow> nb_from (w @ cur) s = nb_from cur s"
proof (induction cur s rule: lines_from.induct)
  case (1 cur)
  then show ?case by (simp add: nb_from_nil strip_space_prefix)
next
  case (2 cur c)
  then show ?case by (simp add: nb_from_single nb_from_nil strip_space_prefix)
next
  case (3 cur c d cs)
  then show ?case by (simp add: nb_from_Cons2 nb_from_nil strip_space_prefix)
qed

lemma nb_space_acc: "is_space c \<Longrightarrow> nb_from (cur @ [c]) [] = nb_from cur []"
proof -
  assume "is_space c"
  then have "strip (cur @ [c]) = strip cur"
    by (intro strip_space_suffix) simp
  then show ?thesis by (simp add: nb_from_nil)
qed

lemma nb_from_brk:
  "\<not> (c = CHR 0x0D \<and> d = CHR 0x0A) \<Longrightarrow> c \<in> set line_breaks \<Longrightarrow>
   nb_from cur (c # d # cs) = nb_from cur [] @ nb_from [] (d # cs)"
  by (simp only: nb_from_Cons2 if_False if_True)

lemma nb_from_other:
  "\<not> (c = CHR 0x0D \<and> d = CHR 0x0A) \<Longrightarrow> c \<notin> set line_breaks \<Longrightarrow>
   nb_from cur (c # d # cs) = nb_from (cur @ [c]) (d # cs)"
  by (simp only: nb_from_Cons2 if_False)

lemma nb_from_crlf:
  "nb_from cur (CHR 0x0D # CHR 0x0A # cs) = nb_from cur [] @ nb_from [] cs"
  by (simp add: nb_from_Cons2)

lemma nb_space: "all_space w \<Longrightarrow> nb_from cur w = nb_from cur []"
proof (induction cur w rule: lines_from.induct)
  case (1 cur)
  then show ?case by simp
next
  case (2 cur c)
  then show ?case by (simp add: nb_from_single nb_space_acc)
next
  case (3 cur c d cs)
  show ?case
  proof (cases "c = CHR 0x0D \<and> d = CHR 0x0A")
    case True
    with 3(1) 3(4) have "nb_from [] cs = nb_from [] []" by simp
    with True show ?thesis by (simp add: nb_from_crlf nb_from_nil)
  next
    case False
    show ?thesis
    proof (cases "c \<in> set line_breaks")
      case True
      with 3(2) [OF False] 3(4) have "nb_from [] (d # cs) = nb_from [] []" by simp
      then show ?thesis unfolding nb_from_brk [OF False True] by (simp add: nb_from_nil)
    next
      case nb: False
      with 3(3) [OF False] 3(4) have "nb_from (cur @ [c]) (d # cs) = nb_from (cur @ [c]) []" by simp
      moreover have "nb_from (cur @ [c]) [] = nb_from cur []"
        using 3(4) by (intro nb_space_acc) simp
      ultimately show ?thesis unfolding nb_from_other [OF False nb] by simp
    qed
  qed
qed

lemma nb_space_nil: "all_space w \<Longrightarrow> nb_from [] w = []"
proof -
  assume "all_space w"
  then have "nb_from [] w = nb_from [] []" by (rule nb_space)
  then show ?thesis by (simp add: nb_from_nil)
qed

lemma nb_suffix: "all_space w \<Longrightarrow> nb_from cur (s @ w) = nb_from cur s"
proof (induction cur s rule: lines_from.induct)
  case (1 cur)
  then show ?case using nb_space [of w cur] by simp
next
  case (2 cur c)
  show ?case
  proof (cases w)
    case Nil
    then show ?thesis by simp
  next
    case (Cons d ws)
    with 2 have ws: "all_space ws" "all_space (d # ws)" by simp_all
    have a: "nb_from [] ws = []" "nb_from [] (d # ws) = []"
      using ws by (simp_all only: nb_space_nil)
    have b: "nb_from (cur @ [c]) (d # ws) = nb_from (cur @ [c]) []"
      using ws(2) by (rule nb_space)
    have "nb_from cur (c # d # ws) = nb_from cur [c]"
      by (simp add: nb_from_Cons2 nb_from_single a b)
    then show ?thesis unfolding Cons by simp
  qed
next
  case (3 cur c d cs)
  show ?case
  proof (cases "c = CHR 0x0D \<and> d = CHR 0x0A")
    case True
    with 3(1) 3(4) have "nb_from [] (cs @ w) = nb_from [] cs" by simp
    with True show ?thesis by (simp add: nb_from_crlf)
  next
    case False
    show ?thesis
    proof (cases "c \<in> set line_breaks")
      case True
      with 3(2) [OF False] 3(4) have "nb_from [] ((d # cs) @ w) = nb_from [] (d # cs)" by simp
      then show ?thesis
        using nb_from_brk [OF False True, of cur "cs @ w"] nb_from_brk [OF False True, of cur cs]
        by simp
    next
      case nb: False
      with 3(3) [OF False] 3(4)
      have "nb_from (cur @ [c]) ((d # cs) @ w) = nb_from (cur @ [c]) (d # cs)" by simp
      then show ?thesis
        using nb_from_other [OF False nb, of cur "cs @ w"] nb_from_other [OF False nb, of cur cs]
        by simp
    qed
  qed
qed

lemma nb_lead: "all_space w \<Longrightarrow> all_space cur \<Longrightarrow> nb_from cur (w @ s) = nb_from [] s"
proof (induction cur w rule: lines_from.induct)
  case (1 cur)
  from nb_prefix [OF 1(2), of "[]" s] have "nb_from cur s = nb_from [] s"
    by (simp only: append_Nil2)
  then show ?case by (simp only: append_Nil)
next
  case (2 cur c)
  have sc: "nb_from cur [] = []" using 2 by (simp add: nb_from_nil strip_all_space)
  have cc: "all_space (cur @ [c])" using 2 by simp
  show ?case
  proof (cases s)
    case Nil
    have "nb_from cur [c] = nb_from cur []"
      using 2(1) by (rule nb_space)
    moreover have "nb_from [] [] = []" by (simp add: nb_from_nil)
    ultimately have "nb_from cur [c] = nb_from [] []"
      by (simp only: sc)
    then show ?thesis unfolding Nil by simp
  next
    case (Cons d ds)
    from nb_prefix [OF cc, of "[]" "d # ds"]
    have p: "nb_from (cur @ [c]) (d # ds) = nb_from [] (d # ds)"
      by (simp only: append_Nil2)
    have q: "nb_from [] (CHR 0x0A # ds) = nb_from [] ds"
      using nb_newline_first [of "[]" ds] by (simp add: newline_lf nb_from_nil)
    have "nb_from cur (c # d # ds) = nb_from [] (d # ds)"
    proof (cases "c = CHR 0x0D \<and> d = CHR 0x0A")
      case True
      then show ?thesis by (simp add: nb_from_crlf sc q)
    next
      case False
      show ?thesis
      proof (cases "c \<in> set line_breaks")
        case True
        show ?thesis unfolding nb_from_brk [OF False True] sc by simp
      next
        case nb: False
        show ?thesis unfolding nb_from_other [OF False nb] p by simp
      qed
    qed
    then show ?thesis unfolding Cons by simp
  qed
next
  case (3 cur c d cs)
  have sc: "nb_from cur [] = []" using 3 by (simp add: nb_from_nil strip_all_space)
  show ?case
  proof (cases "c = CHR 0x0D \<and> d = CHR 0x0A")
    case True
    with 3(1) 3(4) have "nb_from [] (cs @ s) = nb_from [] s" by simp
    with True sc show ?thesis by (simp add: nb_from_crlf)
  next
    case False
    show ?thesis
    proof (cases "c \<in> set line_breaks")
      case True
      with 3(2) [OF False] 3(4) have "nb_from [] ((d # cs) @ s) = nb_from [] s" by simp
      then show ?thesis
        using nb_from_brk [OF False True, of cur "cs @ s"] sc by simp
    next
      case nb: False
      with 3(3) [OF False] 3(4) 3(5) have "nb_from (cur @ [c]) ((d # cs) @ s) = nb_from [] s" by simp
      then show ?thesis
        using nb_from_other [OF False nb, of cur "cs @ s"] by simp
    qed
  qed
qed

lemma nb_newline: "nb_from cur (a @ newline # b) = nb_from cur a @ nb_from [] b"
proof (induction cur a rule: lines_from.induct)
  case (1 cur)
  then show ?case by (simp add: nb_newline_first)
next
  case (2 cur c)
  have "nb_from cur (c # newline # b) = nb_from cur [c] @ nb_from [] b"
    using nb_newline_first [of "[]" b] nb_newline_first [of "cur @ [c]" b]
    by (simp add: nb_from_Cons2 nb_from_single newline_lf nb_from_nil)
  then show ?case by simp
next
  case (3 cur c d cs)
  then show ?case by (simp add: nb_from_Cons2)
qed

lemma nonblank_lines_strip: "nonblank_lines (strip s) = nonblank_lines s"
proof -
  obtain w1 w2 where w: "all_space w1" "all_space w2" and eq: "s = w1 @ strip s @ w2"
    using strip_decompose by blast
  from eq have "nb_from [] s = nb_from [] (w1 @ strip s @ w2)"
    by (rule arg_cong)
  also have "\<dots> = nb_from [] (strip s @ w2)"
    using w(1) by (intro nb_lead) simp_all
  also have "\<dots> = nb_from [] (strip s)"
    using w(2) by (rule nb_suffix)
  finally have "nb_from [] s = nb_from [] (strip s)" .
  then show ?thesis unfolding nonblank_lines_nb by (rule sym)
qed

lemma nonblank_lines_newline:
  "nonblank_lines (a @ newline # b) = nonblank_lines a @ nonblank_lines b"
  by (simp add: nonblank_lines_nb nb_newline)

lemma nonblank_lines_nil [simp]: "nonblank_lines [] = []"
  by (simp add: nonblank_lines_nb nb_from_nil)

lemma break_free_simps [simp]:
  "break_free []" "break_free (c # l) = (c \<notin> set line_breaks \<and> break_free l)"
  "break_free (u @ v) = (break_free u \<and> break_free v)"
  by (auto simp: break_free_def)

lemma lines_from_break_free:
  "break_free s \<Longrightarrow> lines_from cur s = (if cur @ s = [] then [] else [cur @ s])"
proof (induction cur s rule: lines_from.induct)
  case (1 cur)
  then show ?case by simp
next
  case (2 cur c)
  then show ?case by simp
next
  case (3 cur c d cs)
  from 3(4) have nb: "c \<notin> set line_breaks" and bf: "break_free (d # cs)" by simp_all
  from nb have ncr: "\<not> (c = CHR 0x0D \<and> d = CHR 0x0A)"
    using cr_lf_breaks(1) by blast
  from 3(3) [OF ncr nb bf] ncr nb show ?case by simp
qed

lemma lines_from_are_break_free:
  "break_free cur \<Longrightarrow> l \<in> set (lines_from cur s) \<Longrightarrow> break_free l"
proof (induction cur s rule: lines_from.induct)
  case (1 cur)
  then show ?case by (simp split: if_splits)
next
  case (2 cur c)
  then show ?case by (simp split: if_splits)
next
  case (3 cur c d cs)
  show ?case
  proof (cases "c = CHR 0x0D \<and> d = CHR 0x0A")
    case True
    with 3(1) [OF True] 3(4) 3(5) show ?thesis by (simp split: if_splits) blast
  next
    case False
    show ?thesis
    proof (cases "c \<in> set line_breaks")
      case True
      with 3(2) [OF False True] 3(4) 3(5) False show ?thesis by (simp split: if_splits) blast
    next
      case nb: False
      with 3(3) [OF False nb] 3(4) 3(5) False show ?thesis by (simp split: if_splits)
    qed
  qed
qed

lemma splitlines_break_free: "l \<in> set (splitlines s) \<Longrightarrow> break_free l"
  unfolding splitlines_def by (rule lines_from_are_break_free [of "[]"]) simp_all

lemma strip_break_free: "break_free l \<Longrightarrow> break_free (strip l)"
  using strip_subset [of l] by (auto simp: break_free_def)

lemma nonblank_lines_break_free:
  "break_free l \<Longrightarrow> nonblank_lines l = (if strip l = [] then [] else [strip l])"
  by (simp add: nonblank_lines_def splitlines_def lines_from_break_free)

lemma nonblank_lines_join:
  "\<forall>l\<in>set ls. break_free l \<Longrightarrow>
   nonblank_lines (join [newline] ls) = filter (\<lambda>l. l \<noteq> []) (map strip ls)"
proof (induction "[newline]" ls rule: join.induct)
  case 1
  then show ?case by simp
next
  case (2 x)
  then show ?case by (simp add: nonblank_lines_break_free)
next
  case (3 x y ys)
  then show ?case by (simp add: nonblank_lines_newline nonblank_lines_break_free)
qed

lemma nonblank_lines_buffer:
  assumes "\<forall>l\<in>set ls. break_free l \<and> strip l = l"
  shows "nonblank_lines (strip (join [newline] ls)) = filter (\<lambda>l. l \<noteq> []) ls"
proof -
  have "map strip ls = ls"
    using assms by (simp add: map_idI)
  then show ?thesis
    using assms by (simp add: nonblank_lines_strip nonblank_lines_join)
qed

lemma to_body_step:
  assumes "ordered st" and "state st = Header"
  shows "ordered (to_body st x) \<and> zlines (to_body st x) = zlines st @ [x]"
  using assms by (simp add: ordered_def to_body_def zlines_def)

lemma append_line_step:
  assumes "ordered st"
  shows "ordered (append_line st x) \<and> zlines (append_line st x) = zlines st @ [x]"
  using assms by (cases "state st") (simp_all add: ordered_def append_line_def zlines_def)

lemma order_switch: "ordered st \<Longrightarrow> ordered (st\<lparr>state := Order\<rparr>) \<and> zlines (st\<lparr>state := Order\<rparr>) = zlines st"
  by (simp add: ordered_def zlines_def)

lemma seg_step_blank:
  assumes "ordered st" and "strip raw = []"
  shows "ordered (seg_step st raw) \<and>
         (zlines (seg_step st raw) = zlines st \<or> zlines (seg_step st raw) = zlines st @ [[]])"
  using assms
  by (simp add: seg_step_def rstrip_newline_strip ordered_def zlines_def)

lemma seg_step_line:
  assumes "ordered st" and "strip raw \<noteq> []"
  shows "ordered (seg_step st raw) \<and> zlines (seg_step st raw) = zlines st @ [strip raw]"
proof -
  let ?s = "strip raw"
  let ?st = "if looks_like_order_start ?s then st\<lparr>state := Order\<rparr> else st"
  have o: "ordered ?st" and z: "zlines ?st = zlines st"
    using order_switch [OF assms(1)] assms(1) by simp_all
  have "ordered (seg_step st raw) \<and> zlines (seg_step st raw) = zlines ?st @ [?s]"
  proof (cases "state ?st = Header")
    case True
    from to_body_step [OF o True, of ?s] append_line_step [OF o, of ?s] True assms(2)
    show ?thesis
      by (simp add: seg_step_def rstrip_newline_strip Let_def)
  next
    case False
    from append_line_step [OF o, of ?s] False assms(2)
    show ?thesis
      by (simp add: seg_step_def rstrip_newline_strip Let_def)
  qed
  then show ?thesis by (simp only: z)
qed

lemma seg_step_inv:
  assumes "ordered st" and "break_free raw" and "\<forall>l\<in>set (zlines st). clean_line l"
  shows "ordered (seg_step st raw) \<and>
         filter (\<lambda>l. l \<noteq> []) (zlines (seg_step st raw))
           = filter (\<lambda>l. l \<noteq> []) (zlines st) @ filter (\<lambda>l. l \<noteq> []) [strip raw] \<and>
         (\<forall>l\<in>set (zlines (seg_step st raw)). clean_line l)"
proof (cases "strip raw = []")
  case True
  from seg_step_blank [OF assms(1) True] assms(3) True show ?thesis
    by (auto simp: clean_line_def)
next
  case False
  have "clean_line (strip raw)"
    using assms(2) by (simp add: clean_line_def strip_break_free strip_idem)
  with seg_step_line [OF assms(1) False] assms(3) False show ?thesis
    by auto
qed

lemma seg_loop_inv:
  assumes "\<forall>raw\<in>set ls. break_free raw"
  shows "ordered (foldl seg_step \<lparr>state = Header, header_lines = [], body_lines = [], order_lines = []\<rparr> ls) \<and>
         filter (\<lambda>l. l \<noteq> []) (zlines (foldl seg_step \<lparr>state = Header, header_lines = [], body_lines = [], order_lines = []\<rparr> ls))
           = filter (\<lambda>l. l \<noteq> []) (map strip ls) \<and>
         (\<forall>l\<in>set (zlines (foldl seg_step \<lparr>state = Header, header_lines = [], body_lines = [], order_lines = []\<rparr> ls)). clean_line l)"
  using assms
proof (induction ls rule: rev_induct)
  case Nil
  then show ?case by (simp add: ordered_def zlines_def)
next
  case (snoc raw ls)
  let ?st = "foldl seg_step \<lparr>state = Header, header_lines = [], body_lines = [], order_lines = []\<rparr> ls"
  from snoc have ih: "ordered ?st"
    "filter (\<lambda>l. l \<noteq> []) (zlines ?st) = filter (\<lambda>l. l \<noteq> []) (map strip ls)"
    "\<forall>l\<in>set (zlines ?st). clean_line l"
    and bf: "break_free raw"
    by simp_all
  from seg_step_inv [OF ih(1) bf ih(3)] ih(2) show ?case
    by simp
qed

lemma search_from_start:
  "search_from fl r prev gap0 s = Some (g, m, rest, cs) \<Longrightarrow>
   \<exists>pre s'. s = pre @ s' \<and> g = gap0 @ pre \<and>
     rmatch r fl (if pre = [] then prev else Some (last pre), s', []) \<noteq> []"
proof (induction s arbitrary: prev gap0)
  case Nil
  then have "rmatch r fl (prev, [], []) \<noteq> []" "g = gap0"
    by (auto split: list.splits)
  then show ?case by simp
next
  case (Cons x xs)
  show ?case
  proof (cases "rmatch r fl (prev, x # xs, [])")
    case Nil
    with Cons.prems have "search_from fl r (Some x) (gap0 @ [x]) xs = Some (g, m, rest, cs)"
      by simp
    from Cons.IH [OF this] obtain pre s' where
      p: "xs = pre @ s'" "g = (gap0 @ [x]) @ pre"
         "rmatch r fl (if pre = [] then Some x else Some (last pre), s', []) \<noteq> []"
      by blast
    have "x # xs = (x # pre) @ s'" "g = gap0 @ (x # pre)"
      using p by simp_all
    moreover have "rmatch r fl (if x # pre = [] then prev else Some (last (x # pre)), s', []) \<noteq> []"
      using p(3) by (cases "pre = []") simp_all
    ultimately show ?thesis by blast
  next
    case (Cons a as)
    with Cons.prems have "g = gap0"
      by (auto split: prod.splits)
    moreover have "rmatch r fl (prev, x # xs, []) \<noteq> []"
      using Cons by simp
    ultimately have "x # xs = [] @ (x # xs) \<and> g = gap0 @ [] \<and>
        rmatch r fl (if ([]::string) = [] then prev else Some (last []), x # xs, []) \<noteq> []"
      by simp
    then show ?thesis by blast
  qed
qed

lemma lower_char_newline: "chr_eq fIS newline x \<Longrightarrow> x = newline"
  unfolding chr_eq_def fIS_def lower_char_def upper_chars_def lower_chars_def newline_def
  by (simp split: if_splits)

lemma embedded_order_start:
  assumes "rmatch re_embedded_order fIS (p, s', []) \<noteq> []"
  shows "p = None \<or> (\<exists>r. s' = newline # r)"
proof -
  have "rmatch (Alt (Chr newline) Bol) fIS (p, s', []) \<noteq> []"
    using assms by (auto simp: re_embedded_order_def Seqs_def)
  then have "step1 (chr_eq fIS newline) (p, s', []) \<noteq> [] \<or> p = None"
    by (auto simp: fIS_def split: if_splits)
  then show ?thesis
    by (cases s') (auto split: if_splits dest: lower_char_newline)
qed

lemma embedded_order_split:
  assumes "re_search fIS re_embedded_order b = Some (gap, m, rest, cs)"
  shows "nonblank_lines (strip (take (length gap) b)) @ nonblank_lines (strip (drop (length gap) b))
         = nonblank_lines b"
proof -
  from assms have "search_from fIS re_embedded_order None [] b = Some (gap, m, rest, cs)"
    by (simp add: re_search_def)
  from search_from_start [OF this] obtain pre s' where
    p0: "b = pre @ s'" "gap = [] @ pre"
       "rmatch re_embedded_order fIS (if pre = [] then None else Some (last pre), s', []) \<noteq> []"
    by blast
  have p: "b = pre @ s'" "gap = pre"
       "rmatch re_embedded_order fIS (if pre = [] then None else Some (last pre), s', []) \<noteq> []"
    using p0 by simp_all
  have td: "take (length gap) b = pre" "drop (length gap) b = s'"
    using p by simp_all
  from embedded_order_start [OF p(3)]
  have "pre = [] \<or> (\<exists>r. s' = newline # r)"
    by (auto split: if_splits)
  then show ?thesis
  proof
    assume "pre = []"
    then show ?thesis using p td by (simp add: nonblank_lines_strip)
  next
    assume "\<exists>r. s' = newline # r"
    then obtain r where r: "s' = newline # r" by blast
    have nr: "nonblank_lines (newline # r) = nonblank_lines r"
      using nonblank_lines_newline [of "[]" r] by simp
    have "nonblank_lines (strip pre) @ nonblank_lines (strip s') = nonblank_lines pre @ nonblank_lines r"
      by (simp only: nonblank_lines_strip r nr)
    also have "\<dots> = nonblank_lines b"
      by (simp only: p(1) r nonblank_lines_newline)
    finally show ?thesis by (simp only: td)
  qed
qed

lemma nonblank_lines_zone:
  assumes "\<forall>l\<in>set ls. clean_line l"
  shows "nonblank_lines (strip (join [newline] ls)) = filter (\<lambda>l. l \<noteq> []) ls"
  using assms by (intro nonblank_lines_buffer) (simp add: clean_line_def)

lemma nonblank_lines_three:
  "nonblank_lines (h @ newline # b @ newline # ordr)
   = nonblank_lines h @ nonblank_lines b @ nonblank_lines ordr"
  by (simp only: nonblank_lines_newline)

lemma filter_zlines:
  "filter P (zlines st) = filter P (header_lines st) @ filter P (body_lines st) @ filter P (order_lines st)"
  by (simp add: zlines_def)

lemma post_pass:
  assumes base: "nonblank_lines h @ nonblank_lines b @ nonblank_lines ordr = T"
  shows "nonblank_lines (header
           (if ordr = [] \<and> b \<noteq> [] then
              (case re_search fIS re_embedded_order b of
                 Some (gap, m, rest, cs) \<Rightarrow>
                   \<lparr>header = h, body = strip (take (length gap) b), order = strip (drop (length gap) b)\<rparr>
               | None \<Rightarrow> \<lparr>header = h, body = b, order = ordr\<rparr>)
            else \<lparr>header = h, body = b, order = ordr\<rparr>)) @
         nonblank_lines (body
           (if ordr = [] \<and> b \<noteq> [] then
              (case re_search fIS re_embedded_order b of
                 Some (gap, m, rest, cs) \<Rightarrow>
                   \<lparr>header = h, body = strip (take (length gap) b), order = strip (drop (length gap) b)\<rparr>
               | None \<Rightarrow> \<lparr>header = h, body = b, order = ordr\<rparr>)
            else \<lparr>header = h, body = b, order = ordr\<rparr>)) @
         nonblank_lines (order
           (if ordr = [] \<and> b \<noteq> [] then
              (case re_search fIS re_embedded_order b of
                 Some (gap, m, rest, cs) \<Rightarrow>
                   \<lparr>header = h, body = strip (take (length gap) b), order = strip (drop (length gap) b)\<rparr>
               | None \<Rightarrow> \<lparr>header = h, body = b, order = ordr\<rparr>)
            else \<lparr>header = h, body = b, order = ordr\<rparr>)) = T"
proof (cases "ordr = [] \<and> b \<noteq> []")
  case False
  then show ?thesis using base by auto
next
  case True
  show ?thesis
  proof (cases "re_search fIS re_embedded_order b")
    case None
    with True show ?thesis using base by simp
  next
    case (Some res)
    obtain gap m rest cs where res: "res = (gap, m, rest, cs)"
      by (cases res) auto
    have "nonblank_lines ordr = []" using True by simp
    with base have "nonblank_lines h @ nonblank_lines b = T"
      by simp
    with embedded_order_split [OF Some [unfolded res]] True Some res show ?thesis
      by simp
  qed
qed

lemma split_segments_lines:
  "nonblank_lines (header (split_segments text)) @ nonblank_lines (body (split_segments text)) @
   nonblank_lines (order (split_segments text)) = nonblank_lines text"
proof -
  let ?st = "foldl seg_step \<lparr>state = Header, header_lines = [], body_lines = [], order_lines = []\<rparr> (splitlines text)"
  let ?h = "strip (join [newline] (header_lines ?st))"
  let ?b = "strip (join [newline] (body_lines ?st))"
  let ?o = "strip (join [newline] (order_lines ?st))"
  have bf: "\<forall>raw\<in>set (splitlines text). break_free raw"
    using splitlines_break_free by blast
  note inv = seg_loop_inv [OF bf]
  have cl: "\<forall>l\<in>set (header_lines ?st). clean_line l" "\<forall>l\<in>set (body_lines ?st). clean_line l"
    "\<forall>l\<in>set (order_lines ?st). clean_line l"
    using inv by (simp_all add: zlines_def)
  have "nonblank_lines ?h @ nonblank_lines ?b @ nonblank_lines ?o
        = filter (\<lambda>l. l \<noteq> []) (zlines ?st)"
    by (simp only: nonblank_lines_zone [OF cl(1)] nonblank_lines_zone [OF cl(2)]
        nonblank_lines_zone [OF cl(3)] filter_zlines)
  also have "\<dots> = nonblank_lines text"
    using inv by (simp only: nonblank_lines_def)
  finally have base: "nonblank_lines ?h @ nonblank_lines ?b @ nonblank_lines ?o = nonblank_lines text" .
  show ?thesis
    unfolding split_segments_def Let_def by (rule post_pass [OF base])
qed

text \<open>
  Claim C1 (segmentation is a partition): for every input text, the non-blank lines of the
  header, body and order zones returned by \<open>split_segments\<close>, taken in that order, are exactly
  the non-blank lines of the input, each stripped, with no line lost, added or duplicated; and
  concatenating the three zones with newlines gives a text with the same non-blank lines as the
  input. This covers the post-pass that cuts an embedded order block out of the body.
\<close>

theorem segmentation_partition:
  "nonblank_lines (header (split_segments text)) @ nonblank_lines (body (split_segments text)) @
     nonblank_lines (order (split_segments text)) = nonblank_lines text \<and>
   nonblank_lines (header (split_segments text) @ newline # body (split_segments text) @ newline #
     order (split_segments text)) = nonblank_lines text"
  by (simp only: nonblank_lines_three split_segments_lines)

section \<open>Properties of the party extractor\<close>

lemma unique_names_distinct:
  "distinct (map lower unique) \<Longrightarrow> set (map lower unique) \<subseteq> set seen \<Longrightarrow>
   distinct (map lower (unique_names seen unique ns))"
proof (induction ns arbitrary: seen unique)
  case Nil
  then show ?case by simp
next
  case (Cons n ns)
  show ?case
  proof (cases "lower n \<in> set seen")
    case True
    then show ?thesis using Cons by simp
  next
    case False
    have "distinct (map lower (unique @ [n]))"
      using Cons.prems False by auto
    moreover have "set (map lower (unique @ [n])) \<subseteq> set (lower n # seen)"
      using Cons.prems by auto
    ultimately have "distinct (map lower (unique_names (lower n # seen) (unique @ [n]) ns))"
      by (rule Cons.IH)
    then show ?thesis using False by simp
  qed
qed

lemma extract_names_distinct: "distinct (map lower (extract_names_from_block block))"
  using unique_names_distinct [of "[]" "[]"]
  by (simp add: extract_names_from_block_def Let_def)

lemma distinct_map_take: "distinct (map f xs) \<Longrightarrow> distinct (map f (take n xs))"
  by (simp add: distinct_take take_map [symmetric])

lemma versus_names_distinct:
  "distinct (map lower (fst (versus_names h))) \<and> distinct (map lower (snd (versus_names h)))"
  by (simp add: versus_names_def extract_names_distinct split: option.splits)

lemma labelled_names_distinct:
  assumes "distinct (map lower (fst ar))" and "distinct (map lower (snd ar))"
  shows "distinct (map lower (fst (labelled_names h ar))) \<and>
         distinct (map lower (snd (labelled_names h ar)))"
  using assms
  by (auto simp: labelled_names_def Let_def extract_names_distinct
      intro!: distinct_map_take split: option.splits)

lemma labelled_names_caps:
  "length (fst (labelled_names h ar)) \<le> 5 \<and> length (snd (labelled_names h ar)) \<le> 3"
  by (simp add: labelled_names_def Let_def)

lemma extract_parties_distinct:
  "distinct (map lower (fst (extract_parties h))) \<and> distinct (map lower (snd (extract_parties h)))"
  using versus_names_distinct [of h]
    labelled_names_distinct [of "versus_names h" h]
  by (auto simp: extract_parties_def Let_def split: option.splits)

lemma extract_parties_caps_after_versus:
  assumes "fst (versus_names h) = [] \<or> snd (versus_names h) = []"
  shows "length (fst (extract_parties h)) \<le> 5 \<and> length (snd (extract_parties h)) \<le> 3"
  using assms labelled_names_caps [of h "versus_names h"]
  by (auto simp: extract_parties_def Let_def split: option.splits)

text \<open>
  Claim C6 (party-extraction caps): the claim is that \<open>extract_parties\<close> returns at most 5
  appellants and at most 3 respondents whichever strategy succeeds.  The names are
  deduplicated on every path (\<open>extract_parties_distinct\<close>) and capped when the versus-block
  strategy does not succeed (\<open>extract_parties_caps_after_versus\<close>), but the versus-block
  strategy returns its lists as they are: a header with six names above a line that reads
  VERSUS yields six appellants.
\<close>

theorem versus_block_exceeds_cap:
  "extract_parties six_appellants = ([''ABC'', ''DEF'', ''GHI'', ''JKL'', ''MNO'', ''PQR''], [''STU''])"
  by code_simp

end
